theory Spec2Isabelle
  imports Main "HOL-Library.Word" "HOL-Library.Char_ord" "HOL-Library.List_Lexorder"
begin

section \<open>The LFU cache of \<^verbatim>\<open>in_memory_lfu.go\<close>\<close>

text \<open>
  The cache is a Go struct guarded by one mutex; every public method and every tick of the
  expiration sweeper runs with the lock held, so the methods are modelled as functions from
  the state before the call to the state after it (and the value returned).

  \<^item> A \<^verbatim>\<open>time.Time\<close> is an \<open>int\<close> (nanoseconds on the clock), a
    \<^verbatim>\<open>time.Duration\<close> is an \<open>int\<close>; the reading of \<^verbatim>\<open>time.Now()\<close> is an argument.
  \<^item> An \<^verbatim>\<open>interface{}\<close> value is a \<open>'v option\<close>, \<open>None\<close> being \<^verbatim>\<open>nil\<close>.
  \<^item> Frequencies and \<^verbatim>\<open>minFreq\<close> are \<^verbatim>\<open>uint64\<close>: \<open>64 word\<close>, where \<open>+\<close> wraps.
  \<^item> Go maps are partial functions; a frequency bucket \<^verbatim>\<open>map[string]struct{}\<close> is a set of keys.
  \<^item> The order in which \<^verbatim>\<open>range\<close> visits a Go map is chosen by the runtime. Each
    operation that ranges over a map takes that choice as an argument: a function from the
    key set of the map to the list of keys in the order visited.
\<close>

subsection \<open>Data\<close>

type_synonym u64 = "64 word"

record 'v Item =
  Value :: "'v option"
  Expiration :: int
  Frequency :: u64

record 'v InMemoryCache =
  items :: "string \<rightharpoonup> 'v Item"
  freqGroup :: "u64 \<rightharpoonup> string set"
  minFreq :: u64
  defaultExpiration :: int
  cleanupInterval :: int
  size_c :: int

datatype error = KeyNotFound

type_synonym key_range = "string set \<Rightarrow> string list"
type_synonym freq_range = "u64 set \<Rightarrow> u64 list"

text \<open>A range over a map visits every key of the map exactly once.\<close>

definition range_ok :: "('a set \<Rightarrow> 'a list) \<Rightarrow> bool" where
  "range_ok r \<longleftrightarrow> (\<forall>S. finite S \<longrightarrow> distinct (r S) \<and> set (r S) = S)"

definition MaxUint64 :: u64 where
  "MaxUint64 = 18446744073709551615"

text \<open>\<^verbatim>\<open>c.freqGroup[f]\<close>: a missing bucket reads as the nil map, which has no keys.\<close>

definition bucket :: "'v InMemoryCache \<Rightarrow> u64 \<Rightarrow> string set" where
  "bucket c f = (case freqGroup c f of None \<Rightarrow> {} | Some b \<Rightarrow> b)"

text \<open>\<^verbatim>\<open>c.items[k]\<close>: a missing key reads as the zero \<^verbatim>\<open>Item\<close>.\<close>

definition item_at :: "'v InMemoryCache \<Rightarrow> string \<Rightarrow> 'v Item" where
  "item_at c k = (case items c k of
     None \<Rightarrow> \<lparr>Value = None, Expiration = 0, Frequency = 0\<rparr> | Some i \<Rightarrow> i)"

subsection \<open>Operations\<close>

definition isExpired :: "'v Item \<Rightarrow> int \<Rightarrow> bool" where
  "isExpired i now \<longleftrightarrow> Expiration i < now"

text \<open>
  The constructor: \<^verbatim>\<open>size\<close> is also the capacity hint of the two \<^verbatim>\<open>make\<close> calls, which
  the model leaves out, and the sweeper goroutine it starts is the operation \<open>OpTick\<close>
  below.
\<close>

definition NewInMemoryCache :: "int \<Rightarrow> int \<Rightarrow> int \<Rightarrow> 'v InMemoryCache" where
  "NewInMemoryCache sz dflt interval =
     \<lparr>items = Map.empty, freqGroup = Map.empty, minFreq = 1,
      defaultExpiration = dflt, cleanupInterval = interval, size_c = sz\<rparr>"

definition getExp :: "'v InMemoryCache \<Rightarrow> int \<Rightarrow> int \<Rightarrow> int" where
  "getExp c duration now =
     (let duration = (if duration \<le> 0 then defaultExpiration c else duration)
      in now + duration)"

definition deleteItemInGroup ::
  "'v InMemoryCache \<Rightarrow> 'v Item \<Rightarrow> string \<Rightarrow> 'v InMemoryCache \<times> bool" where
  "deleteItemInGroup c item key =
     (let c1 = (case freqGroup c (Frequency item) of
                  None \<Rightarrow> c
                | Some b \<Rightarrow> c\<lparr>freqGroup := (freqGroup c)(Frequency item \<mapsto> b - {key})\<rparr>)
      in if bucket c1 (Frequency item) = {}
         then (c1\<lparr>freqGroup := (freqGroup c1)(Frequency item := None)\<rparr>,
               minFreq c1 = Frequency item)
         else (c1, False))"

definition upgradeItem :: "'v InMemoryCache \<Rightarrow> 'v Item \<Rightarrow> string \<Rightarrow> 'v InMemoryCache" where
  "upgradeItem c item key =
     (let c1 = c\<lparr>items := (items c)(key \<mapsto> item)\<rparr>;
          newFreq = Frequency item + 1;
          (c2, minChanged) = deleteItemInGroup c1 item key;
          c3 = (if minChanged then c2\<lparr>minFreq := newFreq\<rparr> else c2);
          item' = item\<lparr>Frequency := newFreq\<rparr>;
          c4 = (case freqGroup c3 (Frequency item') of
                  None \<Rightarrow> c3\<lparr>freqGroup := (freqGroup c3)(Frequency item' \<mapsto> {})\<rparr>
                | Some b \<Rightarrow> c3);
          c5 = c4\<lparr>freqGroup :=
                 (freqGroup c4)(Frequency item' \<mapsto> insert key (bucket c4 (Frequency item')))\<rparr>
      in c5\<lparr>items := (items c5)(key \<mapsto> item')\<rparr>)"

text \<open>
  The eviction loop of \<^verbatim>\<open>Set\<close>: the body runs for the first key the range yields and
  breaks; an empty (or missing) bucket yields none.
\<close>

definition evict :: "'v InMemoryCache \<Rightarrow> key_range \<Rightarrow> 'v InMemoryCache" where
  "evict c r =
     (case r (bucket c (minFreq c)) of
        [] \<Rightarrow> c
      | keyToDelete # _ \<Rightarrow>
          (let (c1, _) = deleteItemInGroup c (item_at c keyToDelete) keyToDelete
           in c1\<lparr>items := (items c1)(keyToDelete := None)\<rparr>))"

definition Set ::
  "'v InMemoryCache \<Rightarrow> key_range \<Rightarrow> string \<Rightarrow> 'v option \<Rightarrow> int \<Rightarrow> int \<Rightarrow> 'v InMemoryCache" where
  "Set c r key v duration now =
     (if size_c c \<le> 0 then c
      else
        let newItem = \<lparr>Value = v, Expiration = getExp c duration now, Frequency = 0\<rparr>
        in case items c key of
             Some old \<Rightarrow> upgradeItem c (newItem\<lparr>Frequency := Frequency old\<rparr>) key
           | None \<Rightarrow>
               (let c1 = (if size_c c \<le> int (card (dom (items c))) then evict c r else c);
                    c2 = c1\<lparr>freqGroup := (freqGroup c1)(Frequency newItem \<mapsto> {})\<rparr>;
                    c3 = c2\<lparr>freqGroup :=
                           (freqGroup c2)(Frequency newItem \<mapsto>
                              insert key (bucket c2 (Frequency newItem)))\<rparr>;
                    c4 = c3\<lparr>minFreq := Frequency newItem\<rparr>
                in upgradeItem c4 newItem key))"

definition Get ::
  "'v InMemoryCache \<Rightarrow> string \<Rightarrow> int \<Rightarrow> 'v InMemoryCache \<times> ('v option \<times> bool)" where
  "Get c key now =
     (case items c key of
        None \<Rightarrow> (c, (None, False))
      | Some item \<Rightarrow>
          if isExpired item now then (c, (None, False))
          else (upgradeItem c item key, (Value item, True)))"

definition findNewMinFreq :: "'v InMemoryCache \<Rightarrow> freq_range \<Rightarrow> u64" where
  "findNewMinFreq c r =
     fold (\<lambda>cur minFreq. if minFreq > cur then cur else minFreq)
       (r (dom (freqGroup c))) MaxUint64"

definition Delete ::
  "'v InMemoryCache \<Rightarrow> freq_range \<Rightarrow> string \<Rightarrow> 'v InMemoryCache \<times> error option" where
  "Delete c r key =
     (case items c key of
        None \<Rightarrow> (c, Some KeyNotFound)
      | Some item \<Rightarrow>
          (let c1 = c\<lparr>items := (items c)(key := None)\<rparr>;
               (c2, minChanged) = deleteItemInGroup c1 item key
           in (if minChanged then c2\<lparr>minFreq := findNewMinFreq c2 r\<rparr> else c2, None)))"

text \<open>
  \<^verbatim>\<open>Update\<close> hands the stored value to the caller's \<^verbatim>\<open>update\<close>, which changes the object
  behind it in place: the callback is a function from the value before to the value
  after, and no two entries share an object. The clock is read once for the new
  expiration (\<open>now\<close>) and once per visited entry (\<open>tick key\<close>).
\<close>

definition Update_step ::
  "('v option \<Rightarrow> bool) \<Rightarrow> ('v option \<Rightarrow> 'v option) \<Rightarrow> int \<Rightarrow> (string \<Rightarrow> int) \<Rightarrow>
   string \<Rightarrow> 'v InMemoryCache \<Rightarrow> 'v InMemoryCache" where
  "Update_step isUpdated update exp tick key c =
     (case items c key of
        None \<Rightarrow> c
      | Some item \<Rightarrow>
          if isUpdated (Value item) \<and> \<not> isExpired item (tick key)
          then upgradeItem c (item\<lparr>Value := update (Value item), Expiration := exp\<rparr>) key
          else c)"

definition Update ::
  "'v InMemoryCache \<Rightarrow> key_range \<Rightarrow> ('v option \<Rightarrow> bool) \<Rightarrow> ('v option \<Rightarrow> 'v option) \<Rightarrow>
   int \<Rightarrow> int \<Rightarrow> (string \<Rightarrow> int) \<Rightarrow> 'v InMemoryCache" where
  "Update c r isUpdated update duration now tick =
     (let exp = getExp c duration now
      in fold (Update_step isUpdated update exp tick) (r (dom (items c))) c)"

text \<open>One tick of \<^verbatim>\<open>startGC\<close>: the body of its loop, run with the lock held.\<close>

definition startGC_step ::
  "(string \<Rightarrow> int) \<Rightarrow> string \<Rightarrow> 'v InMemoryCache \<times> bool \<Rightarrow> 'v InMemoryCache \<times> bool" where
  "startGC_step tick key s =
     (let (c, isFindMin) = s
      in case items c key of
           None \<Rightarrow> (c, isFindMin)
         | Some item \<Rightarrow>
             if isExpired item (tick key)
             then (let c1 = c\<lparr>items := (items c)(key := None)\<rparr>;
                       (c2, minChanged) = deleteItemInGroup c1 item key
                   in (c2, minChanged \<or> isFindMin))
             else (c, isFindMin))"

definition startGC_tick ::
  "'v InMemoryCache \<Rightarrow> key_range \<Rightarrow> freq_range \<Rightarrow> (string \<Rightarrow> int) \<Rightarrow> 'v InMemoryCache" where
  "startGC_tick c r rf tick =
     (let (c1, isFindMin) = fold (startGC_step tick) (r (dom (items c))) (c, False)
      in if isFindMin then c1\<lparr>minFreq := findNewMinFreq c1 rf\<rparr> else c1)"

subsection \<open>Sequences of operations\<close>

datatype 'v op =
    OpSet key_range string "'v option" int int
  | OpGet string int
  | OpDelete freq_range string
  | OpUpdate key_range "'v option \<Rightarrow> bool" "'v option \<Rightarrow> 'v option" int int "string \<Rightarrow> int"
  | OpTick key_range freq_range "string \<Rightarrow> int"

text \<open>The sweeper runs only in a cache built with a positive \<^verbatim>\<open>cleanupInterval\<close>.\<close>

fun step :: "'v InMemoryCache \<Rightarrow> 'v op \<Rightarrow> 'v InMemoryCache" where
  "step c (OpSet r key v duration now) = Set c r key v duration now"
| "step c (OpGet key now) = fst (Get c key now)"
| "step c (OpDelete rf key) = fst (Delete c rf key)"
| "step c (OpUpdate r p u duration now tick) = Update c r p u duration now tick"
| "step c (OpTick r rf tick) =
     (if 0 < cleanupInterval c then startGC_tick c r rf tick else c)"

fun op_ok :: "'v op \<Rightarrow> bool" where
  "op_ok (OpSet r key v duration now) = range_ok r"
| "op_ok (OpGet key now) = True"
| "op_ok (OpDelete rf key) = range_ok rf"
| "op_ok (OpUpdate r p u duration now tick) = range_ok r"
| "op_ok (OpTick r rf tick) = (range_ok r \<and> range_ok rf)"

definition run :: "'v InMemoryCache \<Rightarrow> 'v op list \<Rightarrow> 'v InMemoryCache" where
  "run c ops = foldl step c ops"

subsection \<open>Invariants of the reachable states\<close>

text \<open>
  Go maps are finite; every key in a bucket is a key of \<^verbatim>\<open>items\<close> whose entry has the bucket's
  frequency, and no bucket is empty; a full cache has a bucket at \<^verbatim>\<open>minFreq\<close>, so that
  the eviction loop of \<^verbatim>\<open>Set\<close> finds a victim. These hold whether or not a frequency
  has wrapped around.
\<close>

definition fin_ok :: "'v InMemoryCache \<Rightarrow> bool" where
  "fin_ok c \<longleftrightarrow> finite (dom (items c)) \<and> finite (dom (freqGroup c))"

definition buckets_ok :: "'v InMemoryCache \<Rightarrow> bool" where
  "buckets_ok c \<longleftrightarrow>
     (\<forall>f b. freqGroup c f = Some b \<longrightarrow>
        b \<noteq> {} \<and> (\<forall>k\<in>b. \<exists>i. items c k = Some i \<and> Frequency i = f))"

definition cap_ok :: "'v InMemoryCache \<Rightarrow> bool" where
  "cap_ok c \<longleftrightarrow>
     (if 0 < size_c c
      then int (card (dom (items c))) \<le> size_c c \<and>
           (size_c c \<le> int (card (dom (items c))) \<longrightarrow> minFreq c \<in> dom (freqGroup c))
      else items c = Map.empty)"

definition cache_wf :: "'v InMemoryCache \<Rightarrow> bool" where
  "cache_wf c \<longleftrightarrow> fin_ok c \<and> buckets_ok c \<and> cap_ok c"

text \<open>The invariant of the sweeper's scan, relative to the state \<open>c\<close> the tick started in.\<close>

definition sweep_inv :: "'v InMemoryCache \<Rightarrow> 'v InMemoryCache \<times> bool \<Rightarrow> bool" where
  "sweep_inv c s \<longleftrightarrow>
     fin_ok (fst s) \<and> buckets_ok (fst s) \<and> size_c (fst s) = size_c c \<and>
     minFreq (fst s) = minFreq c \<and> dom (items (fst s)) \<subseteq> dom (items c) \<and>
     (dom (items (fst s)) = dom (items c) \<longrightarrow> fst s = c \<and> \<not> snd s)"

text \<open>
  While no frequency has wrapped around, more holds: every key of \<^verbatim>\<open>items\<close> is in the bucket
  of its frequency, which is not 0, and \<^verbatim>\<open>minFreq\<close> is the least index of a bucket. After
  \<open>n\<close> operations no frequency exceeds \<open>n\<close>.
\<close>

definition member_ok :: "'v InMemoryCache \<Rightarrow> bool" where
  "member_ok c \<longleftrightarrow>
     (\<forall>k i. items c k = Some i \<longrightarrow> k \<in> bucket c (Frequency i) \<and> Frequency i \<noteq> 0)"

definition min_ok :: "'v InMemoryCache \<Rightarrow> bool" where
  "min_ok c \<longleftrightarrow>
     (items c \<noteq> Map.empty \<longrightarrow>
        minFreq c \<in> dom (freqGroup c) \<and> (\<forall>f\<in>dom (freqGroup c). minFreq c \<le> f))"

definition freq_le :: "nat \<Rightarrow> 'v InMemoryCache \<Rightarrow> bool" where
  "freq_le n c \<longleftrightarrow> (\<forall>k i. items c k = Some i \<longrightarrow> unat (Frequency i) \<le> n)"

definition strong :: "nat \<Rightarrow> 'v InMemoryCache \<Rightarrow> bool" where
  "strong n c \<longleftrightarrow> cache_wf c \<and> member_ok c \<and> min_ok c \<and> freq_le n c"

definition sweep_idx :: "'v InMemoryCache \<Rightarrow> 'v InMemoryCache \<times> bool \<Rightarrow> bool" where
  "sweep_idx c s \<longleftrightarrow>
     member_ok (fst s) \<and> minFreq (fst s) = minFreq c \<and>
     dom (freqGroup (fst s)) \<subseteq> dom (freqGroup c) \<and>
     (snd s \<longleftrightarrow> minFreq c \<notin> dom (freqGroup (fst s)))"

subsection \<open>Example states\<close>

text \<open>A cache of capacity 2 after \<^verbatim>\<open>Set(a)\<close> and \<^verbatim>\<open>Set(b)\<close>, and after \<^verbatim>\<open>Set(a)\<close> alone.\<close>

definition ex_ab :: "nat InMemoryCache" where
  "ex_ab = run (NewInMemoryCache 2 10 0)
     [OpSet sorted_list_of_set ''a'' (Some 7) 5 0, OpSet sorted_list_of_set ''b'' (Some 8) 5 0]"

definition ex_a :: "nat InMemoryCache" where
  "ex_a = run (NewInMemoryCache 2 10 0) [OpSet sorted_list_of_set ''a'' (Some 7) 5 0]"

section \<open>Properties\<close>

subsection \<open>The frequency index under \<^verbatim>\<open>deleteItemInGroup\<close> and \<^verbatim>\<open>upgradeItem\<close>\<close>

lemma bucket_upd [simp]:
  "bucket (c\<lparr>freqGroup := g\<rparr>) f = (case g f of None \<Rightarrow> {} | Some b \<Rightarrow> b)"
  by (simp add: bucket_def)

lemma deleteItemInGroup_freqGroup:
  "freqGroup (fst (deleteItemInGroup c item key)) =
     (freqGroup c)(Frequency item :=
        (if bucket c (Frequency item) - {key} = {} then None
         else Some (bucket c (Frequency item) - {key})))"
  by (auto simp: deleteItemInGroup_def bucket_def Let_def split: option.splits)

lemma deleteItemInGroup_snd:
  "snd (deleteItemInGroup c item key) \<longleftrightarrow>
     bucket c (Frequency item) - {key} = {} \<and> minFreq c = Frequency item"
  by (auto simp: deleteItemInGroup_def bucket_def Let_def split: option.splits)

lemma deleteItemInGroup_fields:
  "items (fst (deleteItemInGroup c item key)) = items c"
  "minFreq (fst (deleteItemInGroup c item key)) = minFreq c"
  "size_c (fst (deleteItemInGroup c item key)) = size_c c"
  "defaultExpiration (fst (deleteItemInGroup c item key)) = defaultExpiration c"
  "cleanupInterval (fst (deleteItemInGroup c item key)) = cleanupInterval c"
  by (auto simp: deleteItemInGroup_def Let_def split: option.splits)

lemmas dig = deleteItemInGroup_fields deleteItemInGroup_snd deleteItemInGroup_freqGroup

lemma upgradeItem_items:
  "items (upgradeItem c item key) = (items c)(key \<mapsto> item\<lparr>Frequency := Frequency item + 1\<rparr>)"
  by (simp add: upgradeItem_def Let_def case_prod_beta dig split: option.splits)

lemma upgradeItem_fields:
  "size_c (upgradeItem c item key) = size_c c"
  "defaultExpiration (upgradeItem c item key) = defaultExpiration c"
  "cleanupInterval (upgradeItem c item key) = cleanupInterval c"
  by (simp_all add: upgradeItem_def Let_def case_prod_beta dig split: option.splits)

lemma upgradeItem_minFreq:
  "minFreq (upgradeItem c item key) =
     (if bucket c (Frequency item) - {key} = {} \<and> minFreq c = Frequency item
      then Frequency item + 1 else minFreq c)"
  by (simp add: upgradeItem_def Let_def case_prod_beta dig bucket_def split: option.splits)

lemma upgradeItem_freqGroup:
  "freqGroup (upgradeItem c item key) =
     (let f = Frequency item;
          g = (freqGroup c)(f := (if bucket c f - {key} = {} then None
                                   else Some (bucket c f - {key})))
      in g(f + 1 \<mapsto> insert key (case g (f + 1) of None \<Rightarrow> {} | Some b \<Rightarrow> b)))"
  by (simp add: upgradeItem_def Let_def case_prod_beta dig bucket_def split: option.splits)

lemma upgradeItem_fin:
  "fin_ok c \<Longrightarrow> fin_ok (upgradeItem c item key)"
  by (simp add: fin_ok_def upgradeItem_items upgradeItem_freqGroup Let_def)

lemma upgradeItem_buckets:
  assumes "buckets_ok c" "items c key = Some i" "Frequency item = Frequency i"
  shows "buckets_ok (upgradeItem c item key)"
  unfolding buckets_ok_def
proof (intro allI impI)
  fix g b
  assume g: "freqGroup (upgradeItem c item key) g = Some b"
  have ne: "Frequency i + 1 \<noteq> Frequency i" by simp
  have old: "\<And>h B k. freqGroup c h = Some B \<Longrightarrow> k \<in> B \<Longrightarrow>
      \<exists>j. items c k = Some j \<and> Frequency j = h"
    using assms(1) by (auto simp: buckets_ok_def)
  have oldne: "\<And>h B. freqGroup c h = Some B \<Longrightarrow> B \<noteq> {}"
    using assms(1) by (auto simp: buckets_ok_def)
  consider "g = Frequency i + 1" | "g = Frequency i" | "g \<noteq> Frequency i + 1" "g \<noteq> Frequency i"
    by blast
  then show "b \<noteq> {} \<and> (\<forall>k\<in>b. \<exists>j. items (upgradeItem c item key) k = Some j \<and> Frequency j = g)"
  proof cases
    case 1
    with g assms ne show ?thesis
      by (auto simp: upgradeItem_items upgradeItem_freqGroup Let_def bucket_def
               split: option.splits if_splits dest: old)
  next
    case 2
    with g assms ne show ?thesis
      by (auto simp: upgradeItem_items upgradeItem_freqGroup Let_def bucket_def
               split: option.splits if_splits dest: old)
  next
    case 3
    with g assms ne show ?thesis
      by (auto simp: upgradeItem_items upgradeItem_freqGroup Let_def bucket_def
               split: option.splits if_splits dest: old oldne)
  qed
qed

lemma upgradeItem_cap:
  assumes "cap_ok c" "buckets_ok c" "items c key = Some i" "Frequency item = Frequency i"
  shows "cap_ok (upgradeItem c item key)"
proof -
  have d: "dom (items (upgradeItem c item key)) = dom (items c)"
    using assms(3) by (auto simp: upgradeItem_items)
  have ne: "Frequency i + 1 \<noteq> Frequency i" by simp
  show ?thesis
    using assms ne unfolding cap_ok_def d
    by (auto simp: upgradeItem_fields upgradeItem_minFreq upgradeItem_freqGroup Let_def bucket_def
                   upgradeItem_items
             split: option.splits if_splits)
qed

subsection \<open>Removing a key from \<^verbatim>\<open>items\<close> and from its bucket\<close>

lemma remove_fin:
  assumes "fin_ok c" "items c' = (items c)(k := None)"
    "freqGroup c' = (freqGroup c)(f := x)"
  shows "fin_ok c'"
proof -
  have "dom (freqGroup c') \<subseteq> insert f (dom (freqGroup c))"
    using assms(3) by (auto split: if_splits)
  with assms show ?thesis
    by (auto simp: fin_ok_def intro: finite_subset)
qed

lemma remove_buckets:
  assumes "buckets_ok c" "items c k = Some i" "items c' = (items c)(k := None)"
    "freqGroup c' = (freqGroup c)(Frequency i :=
        (if bucket c (Frequency i) - {k} = {} then None
         else Some (bucket c (Frequency i) - {k})))"
  shows "buckets_ok c'"
  unfolding buckets_ok_def
proof (intro allI impI)
  fix g b
  assume g: "freqGroup c' g = Some b"
  have old: "\<And>h B k. freqGroup c h = Some B \<Longrightarrow> k \<in> B \<Longrightarrow>
      \<exists>j. items c k = Some j \<and> Frequency j = h"
    using assms(1) by (auto simp: buckets_ok_def)
  have oldne: "\<And>h B. freqGroup c h = Some B \<Longrightarrow> B \<noteq> {}"
    using assms(1) by (auto simp: buckets_ok_def)
  show "b \<noteq> {} \<and> (\<forall>k\<in>b. \<exists>j. items c' k = Some j \<and> Frequency j = g)"
  proof (cases "g = Frequency i")
    case True
    with g assms show ?thesis
      by (auto simp: bucket_def split: option.splits if_splits dest: old)
  next
    case False
    with g assms show ?thesis
      by (auto simp: bucket_def split: option.splits if_splits dest: old oldne)
  qed
qed

lemma bucket_sub_dom:
  "buckets_ok c \<Longrightarrow> bucket c f \<subseteq> dom (items c)"
  by (fastforce simp: buckets_ok_def bucket_def split: option.splits)

lemma bucket_finite:
  "fin_ok c \<Longrightarrow> buckets_ok c \<Longrightarrow> finite (bucket c f)"
  using bucket_sub_dom [of c f] by (auto simp: fin_ok_def intro: finite_subset)

lemma bucket_ne:
  "buckets_ok c \<Longrightarrow> f \<in> dom (freqGroup c) \<Longrightarrow> bucket c f \<noteq> {}"
  by (auto simp: buckets_ok_def bucket_def)

lemma bucket_item:
  "buckets_ok c \<Longrightarrow> k \<in> bucket c f \<Longrightarrow> \<exists>i. items c k = Some i \<and> Frequency i = f"
  by (auto simp: buckets_ok_def bucket_def split: option.splits)

subsection \<open>The eviction loop\<close>

lemma range_ok_set: "range_ok r \<Longrightarrow> finite S \<Longrightarrow> set (r S) = S"
  by (simp add: range_ok_def)

lemma range_ok_distinct: "range_ok r \<Longrightarrow> finite S \<Longrightarrow> distinct (r S)"
  by (simp add: range_ok_def)

lemma range_ok_empty: "range_ok r \<Longrightarrow> r {} = []"
  using range_ok_set [of r "{}"] by simp

lemma evict_empty:
  assumes "range_ok r" "bucket c (minFreq c) = {}"
  shows "evict c r = c"
proof -
  have "r (bucket c (minFreq c)) = []"
    using assms by (simp add: range_ok_empty)
  then show ?thesis by (simp add: evict_def)
qed

lemma evict_head:
  assumes "range_ok r" "fin_ok c" "buckets_ok c" "bucket c (minFreq c) \<noteq> {}"
  shows "\<exists>i. hd (r (bucket c (minFreq c))) \<in> bucket c (minFreq c) \<and>
     items c (hd (r (bucket c (minFreq c)))) = Some i \<and> Frequency i = minFreq c \<and>
     evict c r =
       (fst (deleteItemInGroup c i (hd (r (bucket c (minFreq c))))))
         \<lparr>items := (items c)(hd (r (bucket c (minFreq c))) := None)\<rparr>"
proof -
  let ?B = "bucket c (minFreq c)"
  have fin: "finite ?B" using assms by (simp add: bucket_finite)
  then have s: "set (r ?B) = ?B" using assms(1) by (simp add: range_ok_set)
  with assms(4) obtain k ks where r: "r ?B = k # ks" by (cases "r ?B") auto
  with s have k: "k \<in> ?B" by auto
  then obtain i where i: "items c k = Some i" "Frequency i = minFreq c"
    using bucket_item [OF assms(3)] by blast
  have "evict c r = (fst (deleteItemInGroup c i k))\<lparr>items := (items c)(k := None)\<rparr>"
    using r i by (simp add: evict_def item_at_def case_prod_beta dig)
  with r k i show ?thesis by auto
qed

lemma evict_fields:
  "size_c (evict c r) = size_c c"
  "defaultExpiration (evict c r) = defaultExpiration c"
  "cleanupInterval (evict c r) = cleanupInterval c"
  by (simp_all add: evict_def case_prod_beta dig split: list.splits)

lemma evict_items:
  assumes "range_ok r" "fin_ok c" "buckets_ok c"
  shows "items (evict c r) =
     (if bucket c (minFreq c) = {} then items c
      else (items c)(hd (r (bucket c (minFreq c))) := None))"
proof (cases "bucket c (minFreq c) = {}")
  case True
  then show ?thesis using assms by (simp add: evict_empty)
next
  case False
  from evict_head [OF assms False] show ?thesis using False by auto
qed

lemma evict_fin:
  assumes "range_ok r" "fin_ok c" "buckets_ok c"
  shows "fin_ok (evict c r)"
proof (cases "bucket c (minFreq c) = {}")
  case True
  then show ?thesis using assms by (simp add: evict_empty)
next
  case False
  from evict_head [OF assms False] obtain i where
    e: "evict c r = (fst (deleteItemInGroup c i (hd (r (bucket c (minFreq c))))))
         \<lparr>items := (items c)(hd (r (bucket c (minFreq c))) := None)\<rparr>"
    by blast
  show ?thesis
    by (rule remove_fin [OF assms(2)]) (simp_all add: e dig)
qed

lemma evict_buckets:
  assumes "range_ok r" "fin_ok c" "buckets_ok c"
  shows "buckets_ok (evict c r)"
proof (cases "bucket c (minFreq c) = {}")
  case True
  then show ?thesis using assms by (simp add: evict_empty)
next
  case False
  from evict_head [OF assms False] obtain i where
    i: "items c (hd (r (bucket c (minFreq c)))) = Some i" and
    e: "evict c r = (fst (deleteItemInGroup c i (hd (r (bucket c (minFreq c))))))
         \<lparr>items := (items c)(hd (r (bucket c (minFreq c))) := None)\<rparr>"
    by blast
  show ?thesis
    by (rule remove_buckets [OF assms(3) i]) (simp_all add: e dig)
qed

lemma evict_card:
  assumes "range_ok r" "fin_ok c" "buckets_ok c" "minFreq c \<in> dom (freqGroup c)"
  shows "Suc (card (dom (items (evict c r)))) = card (dom (items c))"
proof -
  have ne: "bucket c (minFreq c) \<noteq> {}" using assms by (simp add: bucket_ne)
  from evict_head [OF assms(1-3) ne] obtain i where
    i: "items c (hd (r (bucket c (minFreq c)))) = Some i" by blast
  have f: "finite (dom (items c))" using assms(2) by (simp add: fin_ok_def)
  have "dom (items (evict c r)) = dom (items c) - {hd (r (bucket c (minFreq c)))}"
    using ne by (simp add: evict_items [OF assms(1-3)])
  moreover have "hd (r (bucket c (minFreq c))) \<in> dom (items c)" using i by auto
  ultimately show ?thesis using f card_Suc_Diff1 [of "dom (items c)" "hd (r (bucket c (minFreq c)))"]
    by simp
qed

lemma evict_dom_sub:
  assumes "range_ok r" "fin_ok c" "buckets_ok c"
  shows "dom (items (evict c r)) \<subseteq> dom (items c)"
  by (auto simp: evict_items [OF assms] split: if_splits)

subsection \<open>Every operation preserves the invariant\<close>

lemma Set_new_items:
  assumes "0 < size_c c" "items c key = None"
    "p = (if size_c c \<le> int (card (dom (items c))) then evict c r else c)"
  shows "items (Set c r key v d now) =
     (items p)(key \<mapsto> \<lparr>Value = v, Expiration = getExp c d now, Frequency = 1\<rparr>)"
  using assms by (simp add: Set_def Let_def upgradeItem_items)

lemma Set_new_freqGroup:
  assumes "0 < size_c c" "items c key = None"
    "p = (if size_c c \<le> int (card (dom (items c))) then evict c r else c)"
  shows "freqGroup (Set c r key v d now) =
     ((freqGroup p)(0 := None))(1 \<mapsto> insert key (bucket p 1))"
  using assms by (simp add: Set_def Let_def upgradeItem_freqGroup bucket_def)

lemma Set_new_minFreq:
  assumes "0 < size_c c" "items c key = None"
  shows "minFreq (Set c r key v d now) = 1"
  using assms by (simp add: Set_def Let_def upgradeItem_minFreq bucket_def)

lemma Set_fields:
  "size_c (Set c r key v d now) = size_c c"
  "defaultExpiration (Set c r key v d now) = defaultExpiration c"
  "cleanupInterval (Set c r key v d now) = cleanupInterval c"
  by (simp_all add: Set_def Let_def upgradeItem_fields evict_fields split: option.splits)

lemma upgradeItem_wf:
  assumes "cache_wf c" "items c key = Some i" "Frequency item = Frequency i"
  shows "cache_wf (upgradeItem c item key)"
  using assms upgradeItem_fin [of c item key] upgradeItem_buckets [of c key i item]
    upgradeItem_cap [of c key i item]
  by (simp add: cache_wf_def)

lemma Set_new_wf:
  assumes wf: "cache_wf c" and r: "range_ok r" and sz: "0 < size_c c" and k: "items c key = None"
  shows "cache_wf (Set c r key v d now)"
proof -
  define p where "p = (if size_c c \<le> int (card (dom (items c))) then evict c r else c)"
  have fc: "fin_ok c" and bc: "buckets_ok c" and cc: "cap_ok c"
    using wf by (simp_all add: cache_wf_def)
  have fp: "fin_ok p" using fc bc r by (simp add: p_def evict_fin)
  have bp: "buckets_ok p" using fc bc r by (simp add: p_def evict_buckets)
  have kp: "items p key = None"
    using evict_dom_sub [OF r fc bc] k by (auto simp: p_def)
  have cp: "int (card (dom (items p))) < size_c c"
  proof (cases "size_c c \<le> int (card (dom (items c)))")
    case True
    with cc sz have "minFreq c \<in> dom (freqGroup c)" "int (card (dom (items c))) \<le> size_c c"
      by (simp_all add: cap_ok_def)
    with evict_card [OF r fc bc] True show ?thesis by (simp add: p_def)
  next
    case False
    then show ?thesis by (simp add: p_def)
  qed
  let ?c' = "Set c r key v d now"
  have it: "items ?c' = (items p)(key \<mapsto> \<lparr>Value = v, Expiration = getExp c d now, Frequency = 1\<rparr>)"
    by (rule Set_new_items [OF sz k p_def])
  have fg: "freqGroup ?c' = ((freqGroup p)(0 := None))(1 \<mapsto> insert key (bucket p 1))"
    by (rule Set_new_freqGroup [OF sz k p_def])
  have mf: "minFreq ?c' = 1" by (rule Set_new_minFreq [OF sz k])
  have "fin_ok ?c'"
    using fp by (simp add: fin_ok_def it fg)
  moreover have "buckets_ok ?c'"
    unfolding buckets_ok_def
  proof (intro allI impI)
    fix g b
    assume g: "freqGroup ?c' g = Some b"
    show "b \<noteq> {} \<and> (\<forall>k\<in>b. \<exists>j. items ?c' k = Some j \<and> Frequency j = g)"
    proof (cases "g = 1")
      case True
      with g have "b = insert key (bucket p 1)" by (simp add: fg)
      then show ?thesis using True bucket_item [OF bp, of _ 1]
        by (auto simp: it)
    next
      case False
      with g have gp: "freqGroup p g = Some b" by (simp add: fg split: if_splits)
      then have b: "b = bucket p g" by (simp add: bucket_def)
      have "key \<notin> b" using bucket_item [OF bp, of key g] kp b by auto
      moreover have "b \<noteq> {}" using bucket_ne [OF bp, of g] gp b by auto
      ultimately show ?thesis using bucket_item [OF bp, of _ g] b
        by (auto simp: it)
    qed
  qed
  moreover have "cap_ok ?c'"
  proof -
    have "finite (dom (items p))" using fp by (simp add: fin_ok_def)
    moreover have "key \<notin> dom (items p)" using kp by auto
    ultimately have "card (dom (items ?c')) = Suc (card (dom (items p)))"
      by (simp add: it)
    then show ?thesis using cp sz
      by (simp add: cap_ok_def Set_fields mf fg)
  qed
  ultimately show ?thesis by (simp add: cache_wf_def)
qed

lemma Set_wf:
  assumes "cache_wf c" "range_ok r"
  shows "cache_wf (Set c r key v d now)"
proof (cases "0 < size_c c")
  case False
  then show ?thesis using assms by (simp add: Set_def)
next
  case sz: True
  show ?thesis
  proof (cases "items c key")
    case None
    then show ?thesis using assms sz by (simp add: Set_new_wf)
  next
    case (Some old)
    then have "Set c r key v d now =
        upgradeItem c \<lparr>Value = v, Expiration = getExp c d now, Frequency = Frequency old\<rparr> key"
      using sz by (simp add: Set_def)
    then show ?thesis using upgradeItem_wf [OF assms(1) Some] by simp
  qed
qed

lemma Get_wf:
  "cache_wf c \<Longrightarrow> cache_wf (fst (Get c key now))"
  by (auto simp: Get_def upgradeItem_wf split: option.splits)

lemma Update_step_wf:
  "cache_wf c \<Longrightarrow> cache_wf (Update_step p u e t key c)"
  by (auto simp: Update_step_def upgradeItem_wf split: option.splits)

lemma fold_Update_step_wf:
  "cache_wf c \<Longrightarrow> cache_wf (fold (Update_step p u e t) ks c)"
  by (induction ks arbitrary: c) (simp_all add: Update_step_wf)

lemma Update_wf:
  "cache_wf c \<Longrightarrow> cache_wf (Update c r p u d now t)"
  by (simp add: Update_def Let_def fold_Update_step_wf)

lemma bucket_items_upd [simp]: "bucket (c\<lparr>items := x\<rparr>) f = bucket c f"
  by (simp add: bucket_def)

lemma bucket_minFreq_upd [simp]: "bucket (c\<lparr>minFreq := x\<rparr>) f = bucket c f"
  by (simp add: bucket_def)

lemma fold_min:
  "fold (\<lambda>cur m. if m > cur then cur else m) fs (a::u64) = Min (insert a (set fs))"
proof (induction fs arbitrary: a)
  case Nil
  then show ?case by simp
next
  case (Cons x xs)
  have "Min (insert (if x < a then x else a) (set xs)) = Min (insert a (insert x (set xs)))"
  proof (cases "set xs = {}")
    case True
    then show ?thesis by (auto simp: min_def)
  next
    case False
    have "Min (insert a (insert x (set xs))) = min a (min x (Min (set xs)))"
      using False by simp
    moreover have "Min (insert (if x < a then x else a) (set xs)) =
        min (if x < a then x else a) (Min (set xs))"
      using False by simp
    ultimately show ?thesis by (auto simp: min_def)
  qed
  then show ?case by (simp add: Cons.IH)
qed

lemma findNewMinFreq_Min:
  assumes "range_ok r" "finite (dom (freqGroup c))"
  shows "findNewMinFreq c r = Min (insert MaxUint64 (dom (freqGroup c)))"
  using assms by (simp add: findNewMinFreq_def fold_min range_ok_set)

lemma Delete_absent:
  "items c key = None \<Longrightarrow> Delete c r key = (c, Some KeyNotFound)"
  by (simp add: Delete_def)

lemma Delete_present:
  assumes "items c key = Some i"
  shows "snd (Delete c r key) = None"
    "items (fst (Delete c r key)) = (items c)(key := None)"
    "freqGroup (fst (Delete c r key)) =
       (freqGroup c)(Frequency i :=
          (if bucket c (Frequency i) - {key} = {} then None
           else Some (bucket c (Frequency i) - {key})))"
    "size_c (fst (Delete c r key)) = size_c c"
    "defaultExpiration (fst (Delete c r key)) = defaultExpiration c"
    "cleanupInterval (fst (Delete c r key)) = cleanupInterval c"
  using assms by (simp_all add: Delete_def Let_def case_prod_beta dig)

lemma Delete_wf:
  assumes "cache_wf c"
  shows "cache_wf (fst (Delete c r key))"
proof (cases "items c key")
  case None
  then show ?thesis using assms by (simp add: Delete_absent)
next
  case (Some i)
  let ?c' = "fst (Delete c r key)"
  note d = Delete_present [OF Some, of r]
  have fc: "fin_ok c" and bc: "buckets_ok c" and cc: "cap_ok c"
    using assms by (simp_all add: cache_wf_def)
  have "fin_ok ?c'" by (rule remove_fin [OF fc d(2) d(3)])
  moreover have "buckets_ok ?c'" by (rule remove_buckets [OF bc Some d(2) d(3)])
  moreover have "cap_ok ?c'"
  proof -
    have "finite (dom (items c))" using fc by (simp add: fin_ok_def)
    moreover have "key \<in> dom (items c)" using Some by auto
    ultimately have "card (dom (items c) - {key}) < card (dom (items c))"
      by (rule card_Diff1_less)
    then have "card (dom (items ?c')) < card (dom (items c))"
      by (simp add: d(2))
    then show ?thesis using cc Some
      by (auto simp: cap_ok_def d(4) split: if_splits)
  qed
  ultimately show ?thesis by (simp add: cache_wf_def)
qed

lemma startGC_step_keep:
  "items (fst s) key = None \<or> (\<exists>i. items (fst s) key = Some i \<and> \<not> isExpired i (tick key))
   \<Longrightarrow> startGC_step tick key s = s"
  by (auto simp: startGC_step_def case_prod_beta split: option.splits)

lemma startGC_step_drop:
  assumes "items (fst s) key = Some i" "isExpired i (tick key)"
  shows "items (fst (startGC_step tick key s)) = (items (fst s))(key := None)"
    "freqGroup (fst (startGC_step tick key s)) =
       (freqGroup (fst s))(Frequency i :=
          (if bucket (fst s) (Frequency i) - {key} = {} then None
           else Some (bucket (fst s) (Frequency i) - {key})))"
    "minFreq (fst (startGC_step tick key s)) = minFreq (fst s)"
    "size_c (fst (startGC_step tick key s)) = size_c (fst s)"
    "defaultExpiration (fst (startGC_step tick key s)) = defaultExpiration (fst s)"
    "cleanupInterval (fst (startGC_step tick key s)) = cleanupInterval (fst s)"
    "snd (startGC_step tick key s) \<longleftrightarrow>
       (bucket (fst s) (Frequency i) - {key} = {} \<and> minFreq (fst s) = Frequency i) \<or> snd s"
  using assms by (simp_all add: startGC_step_def Let_def case_prod_beta dig)

lemma startGC_step_inv:
  assumes "sweep_inv c s"
  shows "sweep_inv c (startGC_step tick key s)"
proof (cases "\<exists>i. items (fst s) key = Some i \<and> isExpired i (tick key)")
  case False
  then have "startGC_step tick key s = s"
    by (intro startGC_step_keep) (cases "items (fst s) key", auto)
  then show ?thesis using assms by simp
next
  case True
  then obtain i where i: "items (fst s) key = Some i" "isExpired i (tick key)" by blast
  note d = startGC_step_drop [where tick = tick and key = key, OF i]
  let ?s' = "startGC_step tick key s"
  have f: "fin_ok (fst s)" and b: "buckets_ok (fst s)" and
    sub: "dom (items (fst s)) \<subseteq> dom (items c)"
    using assms by (simp_all add: sweep_inv_def)
  have "fin_ok (fst ?s')" by (rule remove_fin [OF f d(1) d(2)])
  moreover have "buckets_ok (fst ?s')" by (rule remove_buckets [OF b i(1) d(1) d(2)])
  moreover have "dom (items (fst ?s')) \<subset> dom (items c)"
    using sub i(1) by (auto simp: d(1))
  ultimately show ?thesis using assms
    by (auto simp: sweep_inv_def d(3) d(4))
qed

lemma fold_startGC_step_inv:
  "sweep_inv c s \<Longrightarrow> sweep_inv c (fold (startGC_step tick) ks s)"
  by (induction ks arbitrary: s) (simp_all add: startGC_step_inv)

lemma fin_ok_minFreq [simp]: "fin_ok (c\<lparr>minFreq := x\<rparr>) = fin_ok c"
  by (simp add: fin_ok_def)

lemma buckets_ok_minFreq [simp]: "buckets_ok (c\<lparr>minFreq := x\<rparr>) = buckets_ok c"
  by (simp add: buckets_ok_def)

lemma sweep_inv_cap:
  assumes "cache_wf c" "sweep_inv c s" "dom (items (fst s)) \<noteq> dom (items c)"
  shows "cap_ok ((fst s)\<lparr>minFreq := x\<rparr>)"
proof -
  have "dom (items (fst s)) \<subset> dom (items c)"
    using assms by (auto simp: sweep_inv_def)
  moreover have "finite (dom (items c))"
    using assms(1) by (simp add: cache_wf_def fin_ok_def)
  ultimately have "card (dom (items (fst s))) < card (dom (items c))"
    by (rule psubset_card_mono [rotated])
  moreover have "size_c (fst s) = size_c c" using assms(2) by (simp add: sweep_inv_def)
  ultimately show ?thesis using assms(1,3)
    by (auto simp: cap_ok_def cache_wf_def split: if_splits)
qed

lemma startGC_tick_wf:
  assumes "cache_wf c"
  shows "cache_wf (startGC_tick c r rf tick)"
proof -
  define s where "s = fold (startGC_step tick) (r (dom (items c))) (c, False)"
  have "sweep_inv c (c, False)"
    using assms by (simp add: sweep_inv_def cache_wf_def)
  then have inv: "sweep_inv c s"
    unfolding s_def by (rule fold_startGC_step_inv)
  have t: "startGC_tick c r rf tick =
      (if snd s then (fst s)\<lparr>minFreq := findNewMinFreq (fst s) rf\<rparr> else fst s)"
    by (simp add: startGC_tick_def s_def case_prod_beta)
  show ?thesis
  proof (cases "dom (items (fst s)) = dom (items c)")
    case True
    with inv have "fst s = c" "\<not> snd s" by (simp_all add: sweep_inv_def)
    then show ?thesis using assms by (simp add: t)
  next
    case False
    have m: "(fst s)\<lparr>minFreq := minFreq (fst s)\<rparr> = fst s" by simp
    have "cap_ok ((fst s)\<lparr>minFreq := x\<rparr>)" for x
      by (rule sweep_inv_cap [OF assms inv False])
    from this [of "findNewMinFreq (fst s) rf"] this [of "minFreq (fst s)"]
    show ?thesis using inv
      by (simp add: t cache_wf_def sweep_inv_def)
  qed
qed

lemma New_wf: "cache_wf (NewInMemoryCache sz d i)"
  by (simp add: cache_wf_def fin_ok_def buckets_ok_def cap_ok_def NewInMemoryCache_def)

lemma step_wf: "cache_wf c \<Longrightarrow> op_ok x \<Longrightarrow> cache_wf (step c x)"
  by (cases x) (simp_all add: Set_wf Get_wf Delete_wf Update_wf startGC_tick_wf)

lemma run_snoc: "run c (xs @ [x]) = step (run c xs) x"
  by (simp add: run_def)

lemma run_wf: "cache_wf c \<Longrightarrow> list_all op_ok ops \<Longrightarrow> cache_wf (run c ops)"
  by (induction ops rule: rev_induct) (simp_all add: run_snoc step_wf, simp add: run_def)

subsection \<open>The capacity and the durations never change\<close>

lemma Update_step_fields:
  "size_c (Update_step p u e t key c) = size_c c"
  "defaultExpiration (Update_step p u e t key c) = defaultExpiration c"
  "cleanupInterval (Update_step p u e t key c) = cleanupInterval c"
  by (simp_all add: Update_step_def upgradeItem_fields split: option.splits)

lemma fold_Update_step_fields:
  "size_c (fold (Update_step p u e t) ks c) = size_c c"
  "defaultExpiration (fold (Update_step p u e t) ks c) = defaultExpiration c"
  "cleanupInterval (fold (Update_step p u e t) ks c) = cleanupInterval c"
  by (induction ks arbitrary: c) (simp_all add: Update_step_fields)

lemma Update_fields:
  "size_c (Update c r p u d now t) = size_c c"
  "defaultExpiration (Update c r p u d now t) = defaultExpiration c"
  "cleanupInterval (Update c r p u d now t) = cleanupInterval c"
  by (simp_all add: Update_def Let_def fold_Update_step_fields)

lemma Get_fields:
  "size_c (fst (Get c key now)) = size_c c"
  "defaultExpiration (fst (Get c key now)) = defaultExpiration c"
  "cleanupInterval (fst (Get c key now)) = cleanupInterval c"
  by (simp_all add: Get_def upgradeItem_fields split: option.splits)

lemma Delete_fields:
  "size_c (fst (Delete c r key)) = size_c c"
  "defaultExpiration (fst (Delete c r key)) = defaultExpiration c"
  "cleanupInterval (fst (Delete c r key)) = cleanupInterval c"
  by (simp_all add: Delete_def Let_def case_prod_beta dig split: option.splits)

lemma startGC_step_fields:
  "size_c (fst (startGC_step t key s)) = size_c (fst s)"
  "defaultExpiration (fst (startGC_step t key s)) = defaultExpiration (fst s)"
  "cleanupInterval (fst (startGC_step t key s)) = cleanupInterval (fst s)"
  by (simp_all add: startGC_step_def Let_def case_prod_beta dig split: option.splits)

lemma fold_startGC_step_fields:
  "size_c (fst (fold (startGC_step t) ks s)) = size_c (fst s)"
  "defaultExpiration (fst (fold (startGC_step t) ks s)) = defaultExpiration (fst s)"
  "cleanupInterval (fst (fold (startGC_step t) ks s)) = cleanupInterval (fst s)"
  by (induction ks arbitrary: s) (simp_all add: startGC_step_fields)

lemma startGC_tick_fields:
  "size_c (startGC_tick c r rf t) = size_c c"
  "defaultExpiration (startGC_tick c r rf t) = defaultExpiration c"
  "cleanupInterval (startGC_tick c r rf t) = cleanupInterval c"
  by (simp_all add: startGC_tick_def case_prod_beta fold_startGC_step_fields)

lemma step_fields:
  "size_c (step c x) = size_c c"
  "defaultExpiration (step c x) = defaultExpiration c"
  "cleanupInterval (step c x) = cleanupInterval c"
  by (cases x, simp_all add: Set_fields Get_fields Delete_fields Update_fields startGC_tick_fields)+

lemma run_Nil: "run c [] = c"
  by (simp add: run_def)

lemma run_fields:
  "size_c (run c ops) = size_c c"
  "defaultExpiration (run c ops) = defaultExpiration c"
  "cleanupInterval (run c ops) = cleanupInterval c"
  by (induction ops rule: rev_induct) (simp_all add: run_Nil run_snoc step_fields)

subsection \<open>Capacity bound\<close>

text \<open>
  C1. A cache built with a positive capacity never holds more entries than its capacity,
  after any sequence of \<^verbatim>\<open>Set\<close>, \<^verbatim>\<open>Get\<close>, \<^verbatim>\<open>Delete\<close>, \<^verbatim>\<open>Update\<close> and sweeper ticks.
\<close>

theorem capacity_bound:
  assumes "0 < sz" "list_all op_ok ops"
  shows "finite (dom (items (run (NewInMemoryCache sz d i) ops))) \<and>
     int (card (dom (items (run (NewInMemoryCache sz d i) ops)))) \<le> sz"
proof -
  let ?c = "run (NewInMemoryCache sz d i) ops"
  have "cache_wf ?c" using assms(2) by (simp add: run_wf New_wf)
  moreover have "size_c ?c = sz" by (simp add: run_fields NewInMemoryCache_def)
  ultimately show ?thesis using assms(1)
    by (simp add: cache_wf_def cap_ok_def fin_ok_def)
qed

theorem capacity_bound_witness:
  "(0::int) < 1 \<and>
   list_all op_ok
     [OpSet sorted_list_of_set ''a'' (Some (1::nat)) 5 0,
      OpSet sorted_list_of_set ''b'' (Some 2) 5 0, OpGet ''b'' 1,
      OpUpdate sorted_list_of_set (\<lambda>v. True) (map_option Suc) 0 2 (\<lambda>k. 2),
      OpDelete sorted_list_of_set ''a'',
      OpTick sorted_list_of_set sorted_list_of_set (\<lambda>k. 20)] \<and>
   finite (dom (items (run (NewInMemoryCache 1 10 1)
     [OpSet sorted_list_of_set ''a'' (Some (1::nat)) 5 0,
      OpSet sorted_list_of_set ''b'' (Some 2) 5 0, OpGet ''b'' 1,
      OpUpdate sorted_list_of_set (\<lambda>v. True) (map_option Suc) 0 2 (\<lambda>k. 2),
      OpDelete sorted_list_of_set ''a'',
      OpTick sorted_list_of_set sorted_list_of_set (\<lambda>k. 20)]))) \<and>
   int (card (dom (items (run (NewInMemoryCache 1 10 1)
     [OpSet sorted_list_of_set ''a'' (Some (1::nat)) 5 0,
      OpSet sorted_list_of_set ''b'' (Some 2) 5 0, OpGet ''b'' 1,
      OpUpdate sorted_list_of_set (\<lambda>v. True) (map_option Suc) 0 2 (\<lambda>k. 2),
      OpDelete sorted_list_of_set ''a'',
      OpTick sorted_list_of_set sorted_list_of_set (\<lambda>k. 20)])))) \<le> 1"
  using capacity_bound [of 1
     "[OpSet sorted_list_of_set ''a'' (Some (1::nat)) 5 0,
      OpSet sorted_list_of_set ''b'' (Some 2) 5 0, OpGet ''b'' 1,
      OpUpdate sorted_list_of_set (\<lambda>v. True) (map_option Suc) 0 2 (\<lambda>k. 2),
      OpDelete sorted_list_of_set ''a'',
      OpTick sorted_list_of_set sorted_list_of_set (\<lambda>k. 20)]" 10 1]
  by (simp add: range_ok_def)

subsection \<open>Round trip of \<^verbatim>\<open>Set\<close> and \<^verbatim>\<open>Get\<close>\<close>

lemma Set_items_key:
  assumes "0 < size_c c"
  shows "items (Set c r key v d now) key =
     Some \<lparr>Value = v, Expiration = getExp c d now,
           Frequency = (case items c key of None \<Rightarrow> 1 | Some old \<Rightarrow> Frequency old + 1)\<rparr>"
proof (cases "items c key")
  case None
  then show ?thesis using assms Set_new_items [OF assms None refl, of r v d now] by simp
next
  case (Some old)
  then show ?thesis using assms by (simp add: Set_def upgradeItem_items)
qed

text \<open>
  C6 (as amended). In a cache with a positive capacity, \<^verbatim>\<open>Set(k, v, ttl)\<close> with a positive
  \<^verbatim>\<open>ttl\<close>, followed by \<^verbatim>\<open>Get(k)\<close> at a clock reading not after the entry's expiration,
  returns \<^verbatim>\<open>(v, true)\<close>.
\<close>

theorem Set_Get_roundtrip:
  assumes "0 < size_c c" "0 < ttl" "now' \<le> now + ttl"
  shows "snd (Get (Set c r k v ttl now) k now') = (v, True)"
  using assms Set_items_key [OF assms(1), of r k v ttl now]
  by (simp add: Get_def isExpired_def getExp_def)

theorem Set_Get_roundtrip_witness:
  "0 < size_c (NewInMemoryCache 2 10 0 :: nat InMemoryCache) \<and> (0::int) < 5 \<and> (3::int) \<le> 0 + 5 \<and>
   snd (Get (Set (NewInMemoryCache 2 10 0) sorted_list_of_set ''k'' (Some (7::nat)) 5 0) ''k'' 3)
     = (Some 7, True)"
  using Set_Get_roundtrip [of "NewInMemoryCache 2 10 0 :: nat InMemoryCache" 5 3 0
      sorted_list_of_set "''k''" "Some 7"]
  by (simp add: NewInMemoryCache_def)

text \<open>
  C6 as stated fails: in a cache built with capacity 0, \<^verbatim>\<open>Set\<close> returns at once and the
  following \<^verbatim>\<open>Get\<close> does not find the key.
\<close>

theorem Set_Get_roundtrip_counterexample:
  "snd (Get (Set (NewInMemoryCache 0 10 0) sorted_list_of_set ''k'' (Some (7::nat)) 5 0) ''k'' 0)
     = (None, False) \<and>
   snd (Get (Set (NewInMemoryCache 0 10 0) sorted_list_of_set ''k'' (Some (7::nat)) 5 0) ''k'' 0)
     \<noteq> (Some 7, True)"
  by (simp add: Set_def Get_def NewInMemoryCache_def)

subsection \<open>\<^verbatim>\<open>Delete\<close>\<close>

lemma MaxUint64_eq: "MaxUint64 = - 1"
  by (simp add: MaxUint64_def)

lemma MaxUint64_ge: "f \<le> MaxUint64"
  unfolding MaxUint64_eq by (rule word_n1_ge)

lemma Min_insert_MaxUint64:
  assumes "finite S"
  shows "Min (insert MaxUint64 S) = (if S = {} then MaxUint64 else Min S)"
proof (cases "S = {}")
  case True
  then show ?thesis by simp
next
  case False
  then have "Min (insert MaxUint64 S) = min MaxUint64 (Min S)"
    using assms by simp
  then show ?thesis using False MaxUint64_ge [of "Min S"] by (simp add: min_absorb2)
qed

lemma Delete_minFreq:
  assumes "items c key = Some i"
  shows "minFreq (fst (Delete c r key)) =
     (if bucket c (Frequency i) - {key} = {} \<and> minFreq c = Frequency i
      then fold (\<lambda>cur m. if m > cur then cur else m)
             (r (dom (freqGroup (fst (Delete c r key))))) MaxUint64
      else minFreq c)"
  using assms by (simp add: Delete_def Let_def case_prod_beta dig findNewMinFreq_def)

text \<open>
  C8. \<^verbatim>\<open>Delete(k)\<close> returns the not-found error exactly when \<open>k\<close> is not a key of
  \<^verbatim>\<open>items\<close>, and then the cache is unchanged. When \<open>k\<close> is present, \<^verbatim>\<open>Delete\<close> returns no
  error, removes \<open>k\<close> from \<^verbatim>\<open>items\<close> and from the bucket of its frequency, removes that
  bucket when it has become empty, and, when that bucket was the one at \<^verbatim>\<open>minFreq\<close>, sets
  \<^verbatim>\<open>minFreq\<close> to the least index of the buckets that remain (\<^verbatim>\<open>math.MaxUint64\<close> when none
  remains); otherwise \<^verbatim>\<open>minFreq\<close> is unchanged.
\<close>

theorem Delete_semantics:
  assumes "range_ok r" "finite (dom (freqGroup c))"
  shows "(snd (Delete c r key) = Some KeyNotFound \<longleftrightarrow> items c key = None) \<and>
     (items c key = None \<longrightarrow> fst (Delete c r key) = c) \<and>
     (\<forall>i. items c key = Some i \<longrightarrow>
        snd (Delete c r key) = None \<and>
        items (fst (Delete c r key)) = (items c)(key := None) \<and>
        freqGroup (fst (Delete c r key)) =
          (freqGroup c)(Frequency i :=
             (if bucket c (Frequency i) - {key} = {} then None
              else Some (bucket c (Frequency i) - {key}))) \<and>
        key \<notin> bucket (fst (Delete c r key)) (Frequency i) \<and>
        minFreq (fst (Delete c r key)) =
          (if bucket c (Frequency i) - {key} = {} \<and> minFreq c = Frequency i
           then (if dom (freqGroup (fst (Delete c r key))) = {} then MaxUint64
                 else Min (dom (freqGroup (fst (Delete c r key)))))
           else minFreq c) \<and>
        size_c (fst (Delete c r key)) = size_c c \<and>
        defaultExpiration (fst (Delete c r key)) = defaultExpiration c \<and>
        cleanupInterval (fst (Delete c r key)) = cleanupInterval c)"
proof (cases "items c key")
  case None
  then show ?thesis by (simp add: Delete_absent)
next
  case (Some i)
  let ?c' = "fst (Delete c r key)"
  note d = Delete_present [OF Some, of r]
  have fin: "finite (dom (freqGroup ?c'))"
    using assms(2) by (simp add: d(3))
  have "fold (\<lambda>cur m. if m > cur then cur else m) (r (dom (freqGroup ?c'))) MaxUint64 =
      (if dom (freqGroup ?c') = {} then MaxUint64 else Min (dom (freqGroup ?c')))"
    using fin assms(1) by (simp add: fold_min range_ok_set Min_insert_MaxUint64)
  then have m: "minFreq ?c' =
      (if bucket c (Frequency i) - {key} = {} \<and> minFreq c = Frequency i
       then (if dom (freqGroup ?c') = {} then MaxUint64 else Min (dom (freqGroup ?c')))
       else minFreq c)"
    by (simp add: Delete_minFreq [OF Some])
  have k: "key \<notin> bucket ?c' (Frequency i)"
    by (simp add: bucket_def d(3))
  show ?thesis using Some d m k by simp
qed

theorem Delete_semantics_witness:
  "range_ok (sorted_list_of_set :: u64 set \<Rightarrow> u64 list) \<and>
   finite (dom (freqGroup
     \<lparr>items = [''a'' \<mapsto> \<lparr>Value = Some (7::nat), Expiration = 5, Frequency = 1\<rparr>],
      freqGroup = [1 \<mapsto> {''a''}], minFreq = 1, defaultExpiration = 10,
      cleanupInterval = 0, size_c = 2\<rparr>)) \<and>
   snd (Delete
     \<lparr>items = [''a'' \<mapsto> \<lparr>Value = Some (7::nat), Expiration = 5, Frequency = 1\<rparr>],
      freqGroup = [1 \<mapsto> {''a''}], minFreq = 1, defaultExpiration = 10,
      cleanupInterval = 0, size_c = 2\<rparr> sorted_list_of_set ''a'') = None \<and>
   items (fst (Delete
     \<lparr>items = [''a'' \<mapsto> \<lparr>Value = Some (7::nat), Expiration = 5, Frequency = 1\<rparr>],
      freqGroup = [1 \<mapsto> {''a''}], minFreq = 1, defaultExpiration = 10,
      cleanupInterval = 0, size_c = 2\<rparr> sorted_list_of_set ''a'')) = Map.empty \<and>
   minFreq (fst (Delete
     \<lparr>items = [''a'' \<mapsto> \<lparr>Value = Some (7::nat), Expiration = 5, Frequency = 1\<rparr>],
      freqGroup = [1 \<mapsto> {''a''}], minFreq = 1, defaultExpiration = 10,
      cleanupInterval = 0, size_c = 2\<rparr> sorted_list_of_set ''a'')) = MaxUint64 \<and>
   snd (Delete
     \<lparr>items = [''a'' \<mapsto> \<lparr>Value = Some (7::nat), Expiration = 5, Frequency = 1\<rparr>],
      freqGroup = [1 \<mapsto> {''a''}], minFreq = 1, defaultExpiration = 10,
      cleanupInterval = 0, size_c = 2\<rparr> sorted_list_of_set ''b'') = Some KeyNotFound"
  using Delete_semantics [of sorted_list_of_set
     "\<lparr>items = [''a'' \<mapsto> \<lparr>Value = Some (7::nat), Expiration = 5, Frequency = 1\<rparr>],
      freqGroup = [1 \<mapsto> {''a''}], minFreq = 1, defaultExpiration = 10,
      cleanupInterval = 0, size_c = 2\<rparr>" "''a''"]
    Delete_semantics [of sorted_list_of_set
     "\<lparr>items = [''a'' \<mapsto> \<lparr>Value = Some (7::nat), Expiration = 5, Frequency = 1\<rparr>],
      freqGroup = [1 \<mapsto> {''a''}], minFreq = 1, defaultExpiration = 10,
      cleanupInterval = 0, size_c = 2\<rparr>" "''b''"]
  by (simp add: range_ok_def bucket_def)

subsection \<open>\<^verbatim>\<open>Update\<close>\<close>

lemma ex_ab_eq:
  "ex_ab =
     \<lparr>items = [''a'' \<mapsto> \<lparr>Value = Some 7, Expiration = 5, Frequency = 1\<rparr>,
               ''b'' \<mapsto> \<lparr>Value = Some 8, Expiration = 5, Frequency = 1\<rparr>],
      freqGroup = [1 \<mapsto> {''a'', ''b''}], minFreq = 1, defaultExpiration = 10,
      cleanupInterval = 0, size_c = 2\<rparr>"
  by (simp add: run_def Set_def NewInMemoryCache_def upgradeItem_def deleteItemInGroup_def
      bucket_def getExp_def ex_ab_def Let_def fun_upd_twist insert_commute)

lemma Item_update_all:
  "(i :: 'v Item)\<lparr>Value := a, Expiration := b, Frequency := f\<rparr> =
     \<lparr>Value = a, Expiration = b, Frequency = f\<rparr>"
  by (cases i) simp

lemma Update_step_items:
  "items (Update_step p u e t key c) =
     (case items c key of
        None \<Rightarrow> items c
      | Some i \<Rightarrow>
          if p (Value i) \<and> \<not> isExpired i (t key)
          then (items c)(key \<mapsto> \<lparr>Value = u (Value i), Expiration = e, Frequency = Frequency i + 1\<rparr>)
          else items c)"
  by (simp add: Update_step_def upgradeItem_items Item_update_all split: option.splits)

lemma fold_Update_step_items:
  assumes "distinct ks"
  shows "items (fold (Update_step p u e t) ks c) k =
     (case items c k of
        None \<Rightarrow> None
      | Some i \<Rightarrow>
          if k \<in> set ks \<and> p (Value i) \<and> \<not> isExpired i (t k)
          then Some \<lparr>Value = u (Value i), Expiration = e, Frequency = Frequency i + 1\<rparr>
          else Some i)"
  using assms
proof (induction ks arbitrary: c)
  case Nil
  then show ?case by (simp split: option.splits)
next
  case (Cons x xs)
  have "items (fold (Update_step p u e t) (x # xs) c) k =
      items (fold (Update_step p u e t) xs (Update_step p u e t x c)) k"
    by simp
  also have "\<dots> = (case items (Update_step p u e t x c) k of
        None \<Rightarrow> None
      | Some i \<Rightarrow>
          if k \<in> set xs \<and> p (Value i) \<and> \<not> isExpired i (t k)
          then Some \<lparr>Value = u (Value i), Expiration = e, Frequency = Frequency i + 1\<rparr>
          else Some i)"
    using Cons.prems by (intro Cons.IH) simp
  also have "\<dots> = (case items c k of
        None \<Rightarrow> None
      | Some i \<Rightarrow>
          if k \<in> set (x # xs) \<and> p (Value i) \<and> \<not> isExpired i (t k)
          then Some \<lparr>Value = u (Value i), Expiration = e, Frequency = Frequency i + 1\<rparr>
          else Some i)"
    using Cons.prems
    by (cases "k = x") (auto simp: Update_step_items split: option.splits)
  finally show ?case .
qed



subsection \<open>\<^verbatim>\<open>Get\<close>\<close>

lemma ex_a_eq:
  "ex_a =
     \<lparr>items = [''a'' \<mapsto> \<lparr>Value = Some 7, Expiration = 5, Frequency = 1\<rparr>],
      freqGroup = [1 \<mapsto> {''a''}], minFreq = 1, defaultExpiration = 10,
      cleanupInterval = 0, size_c = 2\<rparr>"
  by (simp add: run_def Set_def NewInMemoryCache_def upgradeItem_def deleteItemInGroup_def
      bucket_def getExp_def ex_a_def Let_def)

lemma Get_miss:
  "items c key = None \<or> (\<exists>i. items c key = Some i \<and> isExpired i now) \<Longrightarrow>
   Get c key now = (c, (None, False))"
  by (auto simp: Get_def)

lemma Get_hit:
  "items c key = Some i \<Longrightarrow> \<not> isExpired i now \<Longrightarrow>
   Get c key now = (upgradeItem c i key, (Value i, True))"
  by (simp add: Get_def)

text \<open>
  C7 (as amended). \<^verbatim>\<open>Get\<close> on a key that is absent, or whose expiration has passed, returns
  \<^verbatim>\<open>(nil, false)\<close> and leaves the whole cache as it was (the expired entry stays in
  \<^verbatim>\<open>items\<close>). \<^verbatim>\<open>Get\<close> on a live key returns its value and \<^verbatim>\<open>true\<close>; in \<^verbatim>\<open>items\<close> only
  that key's entry changes, and only in its frequency, which grows by one; in the
  frequency index the key leaves the bucket of its old frequency (removed when it
  becomes empty) and enters the bucket of the new one, every other bucket being
  unchanged; \<^verbatim>\<open>minFreq\<close> becomes the new frequency when the old bucket has become empty
  and was the one at \<^verbatim>\<open>minFreq\<close>, and is unchanged otherwise; the capacity and the two
  durations are unchanged.
\<close>

theorem Get_frame:
  "(items c key = None \<longrightarrow> Get c key now = (c, (None, False))) \<and>
   (\<forall>i. items c key = Some i \<and> isExpired i now \<longrightarrow> Get c key now = (c, (None, False))) \<and>
   (\<forall>i. items c key = Some i \<and> \<not> isExpired i now \<longrightarrow>
      snd (Get c key now) = (Value i, True) \<and>
      items (fst (Get c key now)) = (items c)(key \<mapsto> i\<lparr>Frequency := Frequency i + 1\<rparr>) \<and>
      (\<forall>f. bucket (fst (Get c key now)) f =
         (if f = Frequency i + 1 then insert key (bucket c f)
          else if f = Frequency i then bucket c f - {key}
          else bucket c f)) \<and>
      (\<forall>f. f \<noteq> Frequency i \<and> f \<noteq> Frequency i + 1 \<longrightarrow>
         freqGroup (fst (Get c key now)) f = freqGroup c f) \<and>
      (Frequency i \<in> dom (freqGroup (fst (Get c key now))) \<longleftrightarrow>
         bucket c (Frequency i) - {key} \<noteq> {}) \<and>
      minFreq (fst (Get c key now)) =
        (if bucket c (Frequency i) - {key} = {} \<and> minFreq c = Frequency i
         then Frequency i + 1 else minFreq c) \<and>
      size_c (fst (Get c key now)) = size_c c \<and>
      defaultExpiration (fst (Get c key now)) = defaultExpiration c \<and>
      cleanupInterval (fst (Get c key now)) = cleanupInterval c)"
proof -
  have ne: "f + 1 \<noteq> f" for f :: u64 by simp
  have hit: "snd (Get c key now) = (Value i, True) \<and>
      items (fst (Get c key now)) = (items c)(key \<mapsto> i\<lparr>Frequency := Frequency i + 1\<rparr>) \<and>
      (\<forall>f. bucket (fst (Get c key now)) f =
         (if f = Frequency i + 1 then insert key (bucket c f)
          else if f = Frequency i then bucket c f - {key}
          else bucket c f)) \<and>
      (\<forall>f. f \<noteq> Frequency i \<and> f \<noteq> Frequency i + 1 \<longrightarrow>
         freqGroup (fst (Get c key now)) f = freqGroup c f) \<and>
      (Frequency i \<in> dom (freqGroup (fst (Get c key now))) \<longleftrightarrow>
         bucket c (Frequency i) - {key} \<noteq> {}) \<and>
      minFreq (fst (Get c key now)) =
        (if bucket c (Frequency i) - {key} = {} \<and> minFreq c = Frequency i
         then Frequency i + 1 else minFreq c) \<and>
      size_c (fst (Get c key now)) = size_c c \<and>
      defaultExpiration (fst (Get c key now)) = defaultExpiration c \<and>
      cleanupInterval (fst (Get c key now)) = cleanupInterval c"
    if "items c key = Some i" "\<not> isExpired i now" for i
    using ne [of "Frequency i"]
    by (auto simp: Get_hit [OF that] upgradeItem_items upgradeItem_fields upgradeItem_minFreq
        upgradeItem_freqGroup Let_def bucket_def split: option.splits)
  show ?thesis using hit by (auto simp: Get_miss)
qed

theorem Get_frame_witness:
  "items ex_ab ''a'' = Some \<lparr>Value = Some 7, Expiration = 5, Frequency = 1\<rparr> \<and>
   \<not> isExpired \<lparr>Value = Some (7::nat), Expiration = 5, Frequency = 1\<rparr> 3 \<and>
   snd (Get ex_ab ''a'' 3) = (Some 7, True) \<and>
   items (fst (Get ex_ab ''a'' 3)) ''a'' = Some \<lparr>Value = Some 7, Expiration = 5, Frequency = 2\<rparr> \<and>
   items (fst (Get ex_ab ''a'' 3)) ''b'' = items ex_ab ''b'' \<and>
   bucket (fst (Get ex_ab ''a'' 3)) 1 = {''b''} \<and>
   bucket (fst (Get ex_ab ''a'' 3)) 2 = {''a''} \<and>
   minFreq (fst (Get ex_ab ''a'' 3)) = 1 \<and>
   isExpired \<lparr>Value = Some (7::nat), Expiration = 5, Frequency = 1\<rparr> 6 \<and>
   Get ex_ab ''a'' 6 = (ex_ab, (None, False)) \<and>
   items ex_ab ''c'' = None \<and>
   Get ex_ab ''c'' 3 = (ex_ab, (None, False))"
proof -
  have a: "items ex_ab ''a'' = Some \<lparr>Value = Some 7, Expiration = 5, Frequency = 1\<rparr>"
    and c: "items ex_ab ''c'' = None"
    by (simp_all add: ex_ab_eq)
  have live: "\<not> isExpired \<lparr>Value = Some (7::nat), Expiration = 5, Frequency = 1\<rparr> 3"
    and dead: "isExpired \<lparr>Value = Some (7::nat), Expiration = 5, Frequency = 1\<rparr> 6"
    by (simp_all add: isExpired_def)
  note hit = Get_frame [of ex_ab "''a''" 3, THEN conjunct2, THEN conjunct2, rule_format,
      OF conjI [OF a live]]
  note exp = Get_frame [of ex_ab "''a''" 6, THEN conjunct2, THEN conjunct1, rule_format,
      OF conjI [OF a dead]]
  note miss = Get_frame [of ex_ab "''c''" 3, THEN conjunct1, rule_format, OF c]
  have b1: "bucket ex_ab 1 = {''a'', ''b''}" and b2: "bucket ex_ab 2 = {}"
    by (simp_all add: ex_ab_eq bucket_def)
  have m: "minFreq ex_ab = 1" by (simp add: ex_ab_eq)
  from hit have "bucket (fst (Get ex_ab ''a'' 3)) 1 = {''b''}"
    "bucket (fst (Get ex_ab ''a'' 3)) 2 = {''a''}"
    "minFreq (fst (Get ex_ab ''a'' 3)) = 1"
    by (simp_all add: b1 b2 m)
  moreover from hit have "snd (Get ex_ab ''a'' 3) = (Some 7, True)"
    "items (fst (Get ex_ab ''a'' 3)) ''a'' = Some \<lparr>Value = Some 7, Expiration = 5, Frequency = 2\<rparr>"
    "items (fst (Get ex_ab ''a'' 3)) ''b'' = items ex_ab ''b''"
    by simp_all
  ultimately show ?thesis using a c live dead exp miss by simp
qed

text \<open>
  C7 as stated fails: \<^verbatim>\<open>Get\<close> on a live key can also change \<^verbatim>\<open>minFreq\<close>. With \<open>a\<close> the
  only entry, at frequency 1, a \<^verbatim>\<open>Get\<close> of it moves \<^verbatim>\<open>minFreq\<close> from 1 to 2.
\<close>

theorem Get_frame_counterexample:
  "snd (Get ex_a ''a'' 3) = (Some 7, True) \<and>
   minFreq ex_a = 1 \<and> minFreq (fst (Get ex_a ''a'' 3)) = 2"
  by (simp add: ex_a_eq Get_def isExpired_def upgradeItem_minFreq bucket_def)

subsection \<open>Eviction in \<^verbatim>\<open>Set\<close>\<close>

lemma evict_freqGroup:
  assumes "range_ok r" "fin_ok c" "buckets_ok c" "bucket c (minFreq c) \<noteq> {}"
  shows "freqGroup (evict c r) =
     (freqGroup c)(minFreq c :=
        (if bucket c (minFreq c) - {hd (r (bucket c (minFreq c)))} = {} then None
         else Some (bucket c (minFreq c) - {hd (r (bucket c (minFreq c)))})))"
proof -
  from evict_head [OF assms] obtain i where
    i: "Frequency i = minFreq c" and
    e: "evict c r = (fst (deleteItemInGroup c i (hd (r (bucket c (minFreq c))))))
         \<lparr>items := (items c)(hd (r (bucket c (minFreq c))) := None)\<rparr>"
    by blast
  show ?thesis by (simp add: e dig i)
qed

text \<open>
  C2. In a state reached from a new cache, when \<^verbatim>\<open>Set\<close> is called with a key that is not in
  \<^verbatim>\<open>items\<close> and the cache already holds at least \<^verbatim>\<open>size\<close> entries, the eviction loop
  removes exactly one key, the first one the range over the bucket at \<^verbatim>\<open>minFreq\<close> yields:
  that key is a member of that bucket and a key of \<^verbatim>\<open>items\<close> before its removal, and
  after it the key is in neither \<^verbatim>\<open>items\<close> nor any bucket, while every other key keeps its
  entry and its bucket. The new key is inserted into the state the eviction leaves.
\<close>

theorem eviction_correct:
  assumes "list_all op_ok ops" "c = run (NewInMemoryCache sz d i) ops" "range_ok r"
    "items c key = None" "0 < size_c c" "size_c c \<le> int (card (dom (items c)))"
  shows "let victim = hd (r (bucket c (minFreq c))) in
     victim \<in> bucket c (minFreq c) \<and> victim \<in> dom (items c) \<and> victim \<noteq> key \<and>
     items (evict c r) = (items c)(victim := None) \<and>
     (\<forall>f. bucket (evict c r) f = bucket c f - {victim}) \<and>
     (\<forall>f. victim \<notin> bucket (evict c r) f) \<and>
     items (Set c r key v ttl now) =
       (items (evict c r))(key \<mapsto> \<lparr>Value = v, Expiration = getExp c ttl now, Frequency = 1\<rparr>) \<and>
     dom (items (Set c r key v ttl now)) = insert key (dom (items c) - {victim}) \<and>
     (\<forall>f. victim \<notin> bucket (Set c r key v ttl now) f)"
proof -
  define victim where "victim = hd (r (bucket c (minFreq c)))"
  define p where "p = (if size_c c \<le> int (card (dom (items c))) then evict c r else c)"
  have p: "p = evict c r" using assms(6) by (simp add: p_def)
  have wf: "cache_wf c" using assms(1,2) by (simp add: run_wf New_wf)
  then have fc: "fin_ok c" and bc: "buckets_ok c" and cc: "cap_ok c"
    by (simp_all add: cache_wf_def)
  have "minFreq c \<in> dom (freqGroup c)" using cc assms(5,6) by (simp add: cap_ok_def)
  then have ne: "bucket c (minFreq c) \<noteq> {}" using bc by (simp add: bucket_ne)
  from evict_head [OF assms(3) fc bc ne] obtain j where
    vb: "victim \<in> bucket c (minFreq c)" and vj: "items c victim = Some j"
    and fj: "Frequency j = minFreq c"
    unfolding victim_def by blast
  have vk: "victim \<noteq> key" using vj assms(4) by auto
  have ie: "items (evict c r) = (items c)(victim := None)"
    using ne by (simp add: evict_items [OF assms(3) fc bc] victim_def)
  have fe: "freqGroup (evict c r) =
     (freqGroup c)(minFreq c :=
        (if bucket c (minFreq c) - {victim} = {} then None
         else Some (bucket c (minFreq c) - {victim})))"
    unfolding victim_def by (rule evict_freqGroup [OF assms(3) fc bc ne])
  have only: "f = minFreq c" if "victim \<in> bucket c f" for f
    using bucket_item [OF bc that] vj fj by auto
  have be: "bucket (evict c r) f = bucket c f - {victim}" for f
  proof (cases "f = minFreq c")
    case True
    then show ?thesis by (simp add: bucket_def fe)
  next
    case False
    then have "victim \<notin> bucket c f" using only [of f] by auto
    moreover have "bucket (evict c r) f = bucket c f" using False by (simp add: bucket_def fe)
    ultimately show ?thesis by simp
  qed
  have its: "items (Set c r key v ttl now) =
       (items (evict c r))(key \<mapsto> \<lparr>Value = v, Expiration = getExp c ttl now, Frequency = 1\<rparr>)"
    using Set_new_items [OF assms(5,4) p_def, of v ttl now] by (simp add: p)
  have fs: "freqGroup (Set c r key v ttl now) =
      ((freqGroup (evict c r))(0 := None))(1 \<mapsto> insert key (bucket (evict c r) 1))"
    using Set_new_freqGroup [OF assms(5,4) p_def, of v ttl now] by (simp add: p)
  have bs: "victim \<notin> bucket (Set c r key v ttl now) f" for f
  proof -
    have "bucket (Set c r key v ttl now) f =
        (if f = 1 then insert key (bucket (evict c r) 1)
         else if f = 0 then {} else bucket (evict c r) f)"
      by (simp add: bucket_def fs)
    then show ?thesis using be [of f] be [of 1] vk by (simp split: if_splits)
  qed
  have ds: "dom (items (Set c r key v ttl now)) = insert key (dom (items c) - {victim})"
    by (auto simp: its ie)
  have v: "hd (r (bucket c (minFreq c))) = victim" by (simp add: victim_def)
  have "victim \<in> dom (items c)" using vj by auto
  with vb vk ie be its ds bs show ?thesis
    unfolding Let_def v by blast
qed

lemma sls_ab: "sorted_list_of_set {''a'', ''b''} = [''a'', ''b'']"
  by simp

theorem eviction_correct_witness:
  "list_all op_ok [OpSet sorted_list_of_set ''a'' (Some (7::nat)) 5 0,
                   OpSet sorted_list_of_set ''b'' (Some 8) 5 0] \<and>
   range_ok (sorted_list_of_set :: string set \<Rightarrow> string list) \<and>
   items ex_ab ''c'' = None \<and> 0 < size_c ex_ab \<and>
   size_c ex_ab \<le> int (card (dom (items ex_ab))) \<and>
   hd (sorted_list_of_set (bucket ex_ab (minFreq ex_ab))) = ''a'' \<and>
   ''a'' \<in> bucket ex_ab (minFreq ex_ab) \<and>
   items (evict ex_ab sorted_list_of_set) = (items ex_ab)(''a'' := None) \<and>
   dom (items (Set ex_ab sorted_list_of_set ''c'' (Some 9) 5 0)) = {''b'', ''c''}"
proof -
  have ops: "list_all op_ok [OpSet sorted_list_of_set ''a'' (Some (7::nat)) 5 0,
                   OpSet sorted_list_of_set ''b'' (Some 8) 5 0]"
    and r: "range_ok (sorted_list_of_set :: string set \<Rightarrow> string list)"
    by (simp_all add: range_ok_def)
  have k: "items ex_ab ''c'' = None" and sz: "0 < size_c ex_ab"
    and full: "size_c ex_ab \<le> int (card (dom (items ex_ab)))"
    by (simp_all add: ex_ab_eq)
  have h: "hd (sorted_list_of_set (bucket ex_ab (minFreq ex_ab))) = ''a''"
    by (simp add: ex_ab_eq bucket_def sls_ab)
  have d: "dom (items ex_ab) = {''a'', ''b''}" by (auto simp: ex_ab_eq)
  from eviction_correct [OF ops ex_ab_def r k sz full, of "Some 9" 5 0]
  show ?thesis using ops r k sz full h d by (auto simp: Let_def)
qed

subsection \<open>What one operation does to a frequency\<close>

lemma evict_items_cases:
  "items (evict c r) k = None \<or> items (evict c r) k = items c k"
  by (simp add: evict_def case_prod_beta dig split: list.splits)

lemma Set_items_other:
  assumes "k \<noteq> key"
  shows "items (Set c r key v d now) k = None \<or> items (Set c r key v d now) k = items c k"
proof (cases "0 < size_c c")
  case False
  then show ?thesis by (simp add: Set_def)
next
  case sz: True
  show ?thesis
  proof (cases "items c key")
    case None
    show ?thesis
      using Set_new_items [OF sz None refl, of r v d now] assms evict_items_cases [of c r k]
      by (auto split: if_splits)
  next
    case (Some old)
    then show ?thesis using sz assms by (simp add: Set_def upgradeItem_items)
  qed
qed

lemma Get_items:
  "items (fst (Get c key now)) =
     (case items c key of
        None \<Rightarrow> items c
      | Some i \<Rightarrow> if isExpired i now then items c
                  else (items c)(key \<mapsto> i\<lparr>Frequency := Frequency i + 1\<rparr>))"
  by (simp add: Get_def upgradeItem_items split: option.splits)

lemma Delete_items_cases:
  "items (fst (Delete c r key)) k = None \<or> items (fst (Delete c r key)) k = items c k"
  by (cases "items c key") (simp_all add: Delete_absent Delete_present)

lemma startGC_step_items_cases:
  "items (fst (startGC_step t key s)) k = None \<or>
   items (fst (startGC_step t key s)) k = items (fst s) k"
  by (simp add: startGC_step_def Let_def case_prod_beta dig split: option.splits)

lemma fold_startGC_step_items_cases:
  "items (fst (fold (startGC_step t) ks s)) k = None \<or>
   items (fst (fold (startGC_step t) ks s)) k = items (fst s) k"
proof (induction ks arbitrary: s)
  case Nil
  then show ?case by simp
next
  case (Cons x xs)
  from Cons.IH [of "startGC_step t x s"] startGC_step_items_cases [of t x s k]
  show ?case by auto
qed

lemma startGC_tick_items_cases:
  "items (startGC_tick c r rf t) k = None \<or> items (startGC_tick c r rf t) k = items c k"
  using fold_startGC_step_items_cases [of t "r (dom (items c))" "(c, False)" k]
  by (auto simp: startGC_tick_def case_prod_beta)

lemma Update_items:
  assumes "range_ok r" "finite (dom (items c))"
  shows "items (Update c r p u d now t) k =
     (case items c k of
        None \<Rightarrow> None
      | Some i \<Rightarrow>
          if p (Value i) \<and> \<not> isExpired i (t k)
          then Some \<lparr>Value = u (Value i), Expiration = getExp c d now, Frequency = Frequency i + 1\<rparr>
          else Some i)"
proof -
  have ks: "distinct (r (dom (items c)))" "set (r (dom (items c))) = dom (items c)"
    using assms by (simp_all add: range_ok_distinct range_ok_set)
  show ?thesis
    unfolding Update_def Let_def fold_Update_step_items [OF ks(1)] ks(2)
    by (auto split: option.splits)
qed

lemma step_items_cases:
  assumes "op_ok x" "finite (dom (items c))" "items (step c x) k = Some i'"
  shows "(items c k = None \<and> Frequency i' = 1) \<or>
     (\<exists>i. items c k = Some i \<and> (Frequency i' = Frequency i \<or> Frequency i' = Frequency i + 1))"
proof (cases x)
  case (OpSet r key v d now)
  show ?thesis
  proof (cases "k = key")
    case True
    show ?thesis
    proof (cases "0 < size_c c")
      case sz: True
      from Set_items_key [OF sz, of r key v d now] assms(3) OpSet True
      show ?thesis by (cases "items c key") auto
    next
      case False
      then show ?thesis using assms(3) OpSet by (simp add: Set_def)
    qed
  next
    case False
    from Set_items_other [OF False, of c r v d now] assms(3) OpSet
    have "items c k = Some i'" by auto
    then show ?thesis by simp
  qed
next
  case (OpGet key now)
  then show ?thesis using assms(3)
    by (auto simp: Get_items split: option.splits if_splits)
next
  case (OpDelete rf key)
  then have "items c k = Some i'" using assms(3) Delete_items_cases [of c rf key k] by auto
  then show ?thesis by simp
next
  case (OpUpdate r p u d now t)
  then have "range_ok r" using assms(1) by simp
  from Update_items [OF this assms(2), of p u d now t k] assms(3) OpUpdate
  show ?thesis by (auto split: option.splits if_splits)
next
  case (OpTick r rf t)
  then have "items c k = Some i'" using assms(3) startGC_tick_items_cases [of c r rf t k]
    by (auto split: if_splits)
  then show ?thesis by simp
qed

subsection \<open>The frequency index while no frequency wraps around\<close>

lemma inc_ne_0: "f \<noteq> MaxUint64 \<Longrightarrow> f + 1 \<noteq> 0"
  by (metis MaxUint64_eq add_neg_numeral_special(8) add_right_cancel)

lemma le_inc: "f \<noteq> MaxUint64 \<Longrightarrow> f \<le> f + 1"
  by (metis MaxUint64_eq inc_less_eq_self_iff_eq linorder_linear)

lemma one_le: "(g::u64) \<noteq> 0 \<Longrightarrow> 1 \<le> g"
  by (metis word_less_1 verit_comp_simplify1(3))

lemma unat_MaxUint64: "unat MaxUint64 = 18446744073709551615"
  by (simp add: MaxUint64_def)

lemma small_ne_Max:
  "unat (f::u64) \<le> n \<Longrightarrow> n < 18446744073709551615 \<Longrightarrow> f \<noteq> MaxUint64"
  using unat_MaxUint64 by auto

lemma unat_inc_le: "unat ((f::u64) + 1) \<le> unat f + 1"
  by (metis Suc_eq_plus1_left add.commute order_refl unatSuc unsigned_0 zero_le)

lemma upgradeItem_member:
  assumes "member_ok c" "items c key = Some i" "Frequency item = Frequency i"
    "Frequency i \<noteq> MaxUint64"
  shows "member_ok (upgradeItem c item key)"
  unfolding member_ok_def
proof (intro allI impI)
  fix k j
  assume j: "items (upgradeItem c item key) k = Some j"
  have ne: "Frequency i + 1 \<noteq> Frequency i" by simp
  have n0: "Frequency i + 1 \<noteq> 0" using assms(4) by (rule inc_ne_0)
  have b: "bucket (upgradeItem c item key) f =
      (if f = Frequency i + 1 then insert key (bucket c f)
       else if f = Frequency i then bucket c f - {key} else bucket c f)" for f
    using ne assms(3)
    by (auto simp: upgradeItem_freqGroup Let_def bucket_def split: option.splits)
  show "k \<in> bucket (upgradeItem c item key) (Frequency j) \<and> Frequency j \<noteq> 0"
  proof (cases "k = key")
    case True
    with j assms(3) have "Frequency j = Frequency i + 1"
      by (auto simp: upgradeItem_items)
    then show ?thesis using True n0 by (simp add: b)
  next
    case False
    with j have "items c k = Some j" by (simp add: upgradeItem_items)
    with assms(1) have "k \<in> bucket c (Frequency j)" "Frequency j \<noteq> 0"
      by (auto simp: member_ok_def)
    then show ?thesis using False by (auto simp: b)
  qed
qed

lemma upgradeItem_min:
  assumes "member_ok c" "min_ok c" "items c key = Some i" "Frequency item = Frequency i"
    "Frequency i \<noteq> MaxUint64"
  shows "min_ok (upgradeItem c item key)"
proof -
  let ?f = "Frequency i"
  let ?c' = "upgradeItem c item key"
  have ne: "?f + 1 \<noteq> ?f" by simp
  have le: "?f \<le> ?f + 1" using assms(5) by (rule le_inc)
  have kb: "key \<in> bucket c ?f" using assms(1,3) by (auto simp: member_ok_def)
  then have fd: "?f \<in> dom (freqGroup c)" by (auto simp: bucket_def split: option.splits)
  have "items c \<noteq> Map.empty" using assms(3) by auto
  with assms(2) have md: "minFreq c \<in> dom (freqGroup c)"
    and ml: "\<And>g. g \<in> dom (freqGroup c) \<Longrightarrow> minFreq c \<le> g"
    by (auto simp: min_ok_def)
  have mf: "minFreq c \<le> ?f" using ml fd by blast
  have d: "dom (freqGroup ?c') =
      insert (?f + 1) (if bucket c ?f - {key} = {} then dom (freqGroup c) - {?f}
                       else dom (freqGroup c))"
    using assms(4) fd by (auto simp: upgradeItem_freqGroup Let_def split: if_splits)
  have m: "minFreq ?c' =
      (if bucket c ?f - {key} = {} \<and> minFreq c = ?f then ?f + 1 else minFreq c)"
    using assms(4) by (simp add: upgradeItem_minFreq)
  have "minFreq ?c' \<in> dom (freqGroup ?c') \<and> (\<forall>g\<in>dom (freqGroup ?c'). minFreq ?c' \<le> g)"
  proof (cases "bucket c ?f - {key} = {} \<and> minFreq c = ?f")
    case True
    have "?f + 1 \<le> g" if "g \<in> dom (freqGroup c) - {?f}" for g
    proof -
      have "?f \<le> g" "?f \<noteq> g" using that ml True by auto
      then have "?f < g" by simp
      then show ?thesis by (rule inc_le)
    qed
    then show ?thesis using True by (auto simp: d m)
  next
    case False
    have "minFreq c \<le> ?f + 1" using mf le by simp
    then show ?thesis using False md ml by (auto simp: d m)
  qed
  then show ?thesis by (simp add: min_ok_def)
qed

lemma remove_member:
  assumes "member_ok c" "items c' = (items c)(k := None)"
    "freqGroup c' = (freqGroup c)(f :=
        (if bucket c f - {k} = {} then None else Some (bucket c f - {k})))"
  shows "member_ok c'"
  unfolding member_ok_def
proof (intro allI impI)
  fix x j
  assume j: "items c' x = Some j"
  then have x: "x \<noteq> k" "items c x = Some j" using assms(2) by (auto split: if_splits)
  with assms(1) have xb: "x \<in> bucket c (Frequency j)" and n0: "Frequency j \<noteq> 0"
    by (auto simp: member_ok_def)
  have "bucket c' g = bucket c g - (if g = f then {k} else {})" for g
    by (auto simp: bucket_def assms(3) split: option.splits)
  then show "x \<in> bucket c' (Frequency j) \<and> Frequency j \<noteq> 0"
    using xb n0 x(1) by auto
qed

lemma member_dom:
  "member_ok c \<Longrightarrow> items c k = Some i \<Longrightarrow> Frequency i \<in> dom (freqGroup c)"
  by (auto simp: member_ok_def bucket_def split: option.splits)

lemma bucket_index_ne_0:
  assumes "buckets_ok c" "member_ok c" "g \<in> dom (freqGroup c)"
  shows "g \<noteq> 0"
proof -
  have "bucket c g \<noteq> {}" using assms(1,3) by (rule bucket_ne)
  then obtain k where "k \<in> bucket c g" by blast
  from bucket_item [OF assms(1) this] assms(2) show ?thesis
    by (auto simp: member_ok_def)
qed

lemma evict_member:
  assumes "range_ok r" "fin_ok c" "buckets_ok c" "member_ok c"
  shows "member_ok (evict c r)"
proof (cases "bucket c (minFreq c) = {}")
  case True
  then show ?thesis using assms by (simp add: evict_empty)
next
  case False
  show ?thesis
    by (rule remove_member [OF assms(4), of _ "hd (r (bucket c (minFreq c)))" "minFreq c"])
      (simp_all add: evict_items [OF assms(1-3)] evict_freqGroup [OF assms(1-3) False] False)
qed

lemma Set_new_idx:
  assumes wf: "cache_wf c" and m: "member_ok c" and r: "range_ok r"
    and sz: "0 < size_c c" and k: "items c key = None"
  shows "member_ok (Set c r key v d now) \<and> min_ok (Set c r key v d now)"
proof -
  define p where "p = (if size_c c \<le> int (card (dom (items c))) then evict c r else c)"
  have fc: "fin_ok c" and bc: "buckets_ok c"
    using wf by (simp_all add: cache_wf_def)
  have bp: "buckets_ok p" using fc bc r by (simp add: p_def evict_buckets)
  have mp: "member_ok p" using fc bc r m by (simp add: p_def evict_member)
  let ?c' = "Set c r key v d now"
  have it: "items ?c' = (items p)(key \<mapsto> \<lparr>Value = v, Expiration = getExp c d now, Frequency = 1\<rparr>)"
    by (rule Set_new_items [OF sz k p_def])
  have fg: "freqGroup ?c' = ((freqGroup p)(0 := None))(1 \<mapsto> insert key (bucket p 1))"
    by (rule Set_new_freqGroup [OF sz k p_def])
  have mf: "minFreq ?c' = 1" by (rule Set_new_minFreq [OF sz k])
  have b: "bucket ?c' g = (if g = 1 then insert key (bucket p 1)
      else if g = 0 then {} else bucket p g)" for g
    by (simp add: bucket_def fg)
  have "member_ok ?c'"
    unfolding member_ok_def
  proof (intro allI impI)
    fix x j
    assume j: "items ?c' x = Some j"
    show "x \<in> bucket ?c' (Frequency j) \<and> Frequency j \<noteq> 0"
    proof (cases "x = key")
      case True
      with j have "Frequency j = 1" by (auto simp: it)
      then show ?thesis using True by (simp add: b)
    next
      case False
      with j have "items p x = Some j" by (simp add: it)
      with mp have "x \<in> bucket p (Frequency j)" "Frequency j \<noteq> 0"
        by (auto simp: member_ok_def)
      then show ?thesis by (auto simp: b)
    qed
  qed
  moreover have "min_ok ?c'"
  proof -
    have "1 \<le> g" if "g \<in> dom (freqGroup ?c')" for g
    proof (cases "g = 1")
      case True
      then show ?thesis by simp
    next
      case False
      with that have "g \<in> dom (freqGroup p)" by (auto simp: fg split: if_splits)
      then have "g \<noteq> 0" using bp mp by (rule bucket_index_ne_0 [rotated 2])
      then show ?thesis by (rule one_le)
    qed
    then show ?thesis by (simp add: min_ok_def mf fg)
  qed
  ultimately show ?thesis by simp
qed

lemma Set_idx:
  assumes "strong n c" "n < 18446744073709551615" "range_ok r"
  shows "member_ok (Set c r key v d now) \<and> min_ok (Set c r key v d now)"
proof (cases "0 < size_c c")
  case False
  then show ?thesis using assms by (simp add: Set_def strong_def)
next
  case sz: True
  show ?thesis
  proof (cases "items c key")
    case None
    then show ?thesis using assms sz by (simp add: Set_new_idx strong_def)
  next
    case (Some old)
    then have e: "Set c r key v d now =
        upgradeItem c \<lparr>Value = v, Expiration = getExp c d now, Frequency = Frequency old\<rparr> key"
      using sz by (simp add: Set_def)
    have "Frequency old \<noteq> MaxUint64"
      using assms(1,2) Some small_ne_Max [of "Frequency old" n] by (auto simp: strong_def freq_le_def)
    then show ?thesis
      using assms(1) Some upgradeItem_member [of c key old] upgradeItem_min [of c key old]
      by (simp add: e strong_def)
  qed
qed

lemma Get_idx:
  assumes "strong n c" "n < 18446744073709551615"
  shows "member_ok (fst (Get c key now)) \<and> min_ok (fst (Get c key now))"
proof (cases "\<exists>i. items c key = Some i \<and> \<not> isExpired i now")
  case False
  then have "Get c key now = (c, (None, False))"
    by (intro Get_miss) (cases "items c key", auto)
  then show ?thesis using assms by (simp add: strong_def)
next
  case True
  then obtain i where i: "items c key = Some i" "\<not> isExpired i now" by blast
  have "Frequency i \<noteq> MaxUint64"
    using assms i(1) small_ne_Max [of "Frequency i" n] by (auto simp: strong_def freq_le_def)
  then show ?thesis
    using assms(1) i upgradeItem_member [of c key i i] upgradeItem_min [of c key i i]
    by (simp add: Get_hit [OF i] strong_def)
qed

lemma Update_step_idx:
  assumes "member_ok c \<and> min_ok c" "\<forall>i. items c key = Some i \<longrightarrow> Frequency i \<noteq> MaxUint64"
  shows "member_ok (Update_step p u e t key c) \<and> min_ok (Update_step p u e t key c)"
proof (cases "items c key")
  case None
  then show ?thesis using assms by (simp add: Update_step_def)
next
  case (Some i)
  then show ?thesis
    using assms
      upgradeItem_member [of c key i "i\<lparr>Value := u (Value i), Expiration := e\<rparr>"]
      upgradeItem_min [of c key i "i\<lparr>Value := u (Value i), Expiration := e\<rparr>"]
    by (simp add: Update_step_def)
qed

lemma fold_Update_step_idx:
  assumes "distinct ks" "member_ok c \<and> min_ok c"
    "\<forall>k\<in>set ks. \<forall>i. items c k = Some i \<longrightarrow> Frequency i \<noteq> MaxUint64"
  shows "member_ok (fold (Update_step p u e t) ks c) \<and> min_ok (fold (Update_step p u e t) ks c)"
  using assms
proof (induction ks arbitrary: c)
  case Nil
  then show ?case by simp
next
  case (Cons x xs)
  have 1: "member_ok (Update_step p u e t x c) \<and> min_ok (Update_step p u e t x c)"
    using Cons.prems by (intro Update_step_idx) auto
  have 2: "\<forall>k\<in>set xs. \<forall>i. items (Update_step p u e t x c) k = Some i \<longrightarrow>
      Frequency i \<noteq> MaxUint64"
    using Cons.prems(1,3)
    by (auto simp: Update_step_items split: option.splits if_splits)
  from Cons.IH [OF _ 1 2] Cons.prems(1) show ?case by simp
qed

lemma Update_idx:
  assumes "strong n c" "n < 18446744073709551615" "range_ok r"
  shows "member_ok (Update c r p u d now t) \<and> min_ok (Update c r p u d now t)"
proof -
  have fin: "finite (dom (items c))" using assms(1) by (simp add: strong_def cache_wf_def fin_ok_def)
  have "\<forall>k\<in>set (r (dom (items c))). \<forall>i. items c k = Some i \<longrightarrow> Frequency i \<noteq> MaxUint64"
    using assms(1,2) small_ne_Max [of _ n] by (auto simp: strong_def freq_le_def)
  moreover have "distinct (r (dom (items c)))" using assms(3) fin by (rule range_ok_distinct)
  ultimately show ?thesis
    using assms(1) unfolding Update_def Let_def
    by (intro fold_Update_step_idx) (simp_all add: strong_def)
qed

lemma member_ok_minFreq [simp]: "member_ok (c\<lparr>minFreq := x\<rparr>) = member_ok c"
  by (simp add: member_ok_def)

lemma min_ok_recomputed:
  assumes "member_ok c" "finite (dom (freqGroup c))" "range_ok rf"
  shows "min_ok (c\<lparr>minFreq := findNewMinFreq c rf\<rparr>)"
proof (cases "items c = Map.empty")
  case True
  then show ?thesis by (simp add: min_ok_def)
next
  case False
  then obtain k i where "items c k = Some i" by (auto simp: fun_eq_iff)
  with assms(1) have ne: "dom (freqGroup c) \<noteq> {}" using member_dom by fastforce
  have "findNewMinFreq c rf = Min (dom (freqGroup c))"
    using ne by (simp add: findNewMinFreq_Min [OF assms(3,2)] Min_insert_MaxUint64 [OF assms(2)])
  then show ?thesis using ne assms(2) by (simp add: min_ok_def)
qed

lemma Delete_idx:
  assumes "cache_wf c" "member_ok c" "min_ok c" "range_ok rf"
  shows "member_ok (fst (Delete c rf key)) \<and> min_ok (fst (Delete c rf key))"
proof (cases "items c key")
  case None
  then show ?thesis using assms by (simp add: Delete_absent)
next
  case (Some i)
  let ?c' = "fst (Delete c rf key)"
  let ?f = "Frequency i"
  note d = Delete_present [OF Some, of rf]
  have m': "member_ok ?c'" by (rule remove_member [OF assms(2) d(2) d(3)])
  have "fin_ok ?c'" using Delete_wf [OF assms(1), of rf key] by (simp add: cache_wf_def)
  then have fin: "finite (dom (freqGroup ?c'))" by (simp add: fin_ok_def)
  have "min_ok ?c'"
  proof (cases "bucket c ?f - {key} = {} \<and> minFreq c = ?f")
    case True
    then have e: "?c' = ?c'\<lparr>minFreq := findNewMinFreq ?c' rf\<rparr>"
      using Delete_minFreq [OF Some, of rf] by (simp add: findNewMinFreq_def)
    show ?thesis
      by (subst e) (rule min_ok_recomputed [OF m' fin assms(4)])
  next
    case False
    then have mf: "minFreq ?c' = minFreq c" using Delete_minFreq [OF Some, of rf] by auto
    have "items c \<noteq> Map.empty" using Some by auto
    with assms(3) have md: "minFreq c \<in> dom (freqGroup c)"
      and ml: "\<And>g. g \<in> dom (freqGroup c) \<Longrightarrow> minFreq c \<le> g"
      by (auto simp: min_ok_def)
    have "minFreq c \<in> dom (freqGroup ?c')" using False md by (auto simp: d(3))
    moreover have "dom (freqGroup ?c') \<subseteq> dom (freqGroup c)"
      using member_dom [OF assms(2) Some] by (auto simp: d(3) split: if_splits)
    ultimately show ?thesis using ml by (auto simp: min_ok_def mf)
  qed
  with m' show ?thesis by simp
qed

lemma startGC_step_idx:
  assumes "sweep_idx c s"
  shows "sweep_idx c (startGC_step t key s)"
proof (cases "\<exists>i. items (fst s) key = Some i \<and> isExpired i (t key)")
  case False
  then have "startGC_step t key s = s"
    by (intro startGC_step_keep) (cases "items (fst s) key", auto)
  then show ?thesis using assms by simp
next
  case True
  then obtain i where i: "items (fst s) key = Some i" "isExpired i (t key)" by blast
  note d = startGC_step_drop [where tick = t and key = key, OF i]
  let ?s' = "startGC_step t key s"
  have m: "member_ok (fst s)" using assms by (simp add: sweep_idx_def)
  have "member_ok (fst ?s')" by (rule remove_member [OF m d(1) d(2)])
  moreover have "Frequency i \<in> dom (freqGroup (fst s))" using m i(1) by (rule member_dom)
  ultimately show ?thesis using assms
    by (auto simp: sweep_idx_def d split: if_splits)
qed

lemma fold_startGC_step_idx:
  "sweep_idx c s \<Longrightarrow> sweep_idx c (fold (startGC_step t) ks s)"
  by (induction ks arbitrary: s) (simp_all add: startGC_step_idx)

lemma startGC_tick_idx:
  assumes "cache_wf c" "member_ok c" "min_ok c" "range_ok r" "range_ok rf"
  shows "member_ok (startGC_tick c r rf t) \<and> min_ok (startGC_tick c r rf t)"
proof (cases "items c = Map.empty")
  case True
  then have "r (dom (items c)) = []" using assms(4) by (simp add: range_ok_empty)
  then show ?thesis using assms by (simp add: startGC_tick_def)
next
  case False
  define s where "s = fold (startGC_step t) (r (dom (items c))) (c, False)"
  have t: "startGC_tick c r rf t =
      (if snd s then (fst s)\<lparr>minFreq := findNewMinFreq (fst s) rf\<rparr> else fst s)"
    by (simp add: startGC_tick_def s_def case_prod_beta)
  from False assms(3) have md: "minFreq c \<in> dom (freqGroup c)"
    and ml: "\<And>g. g \<in> dom (freqGroup c) \<Longrightarrow> minFreq c \<le> g"
    by (auto simp: min_ok_def)
  have "sweep_idx c (c, False)" using assms(2) md by (simp add: sweep_idx_def)
  then have idx: "sweep_idx c s" unfolding s_def by (rule fold_startGC_step_idx)
  have "sweep_inv c (c, False)"
    using assms(1) by (simp add: sweep_inv_def cache_wf_def)
  then have "sweep_inv c s" unfolding s_def by (rule fold_startGC_step_inv)
  then have fin: "finite (dom (freqGroup (fst s)))" by (simp add: sweep_inv_def fin_ok_def)
  have m: "member_ok (fst s)" using idx by (simp add: sweep_idx_def)
  show ?thesis
  proof (cases "snd s")
    case True
    then show ?thesis using m min_ok_recomputed [OF m fin assms(5)] by (simp add: t)
  next
    case nf: False
    from idx have sub: "dom (freqGroup (fst s)) \<subseteq> dom (freqGroup c)"
      and mf: "minFreq (fst s) = minFreq c"
      by (simp_all add: sweep_idx_def)
    from idx nf have "minFreq (fst s) \<in> dom (freqGroup (fst s))"
      by (simp add: sweep_idx_def)
    moreover have "minFreq (fst s) \<le> g" if "g \<in> dom (freqGroup (fst s))" for g
      using that sub ml [of g] mf by auto
    ultimately show ?thesis using m nf by (simp add: t min_ok_def)
  qed
qed

lemma step_freq_le:
  assumes "freq_le n c" "op_ok x" "finite (dom (items c))"
  shows "freq_le (Suc n) (step c x)"
  unfolding freq_le_def
proof (intro allI impI)
  fix k i'
  assume "items (step c x) k = Some i'"
  from step_items_cases [OF assms(2,3) this]
  show "unat (Frequency i') \<le> Suc n"
  proof
    assume "items c k = None \<and> Frequency i' = 1"
    then show ?thesis by simp
  next
    assume "\<exists>i. items c k = Some i \<and> (Frequency i' = Frequency i \<or> Frequency i' = Frequency i + 1)"
    then obtain i where i: "items c k = Some i"
      "Frequency i' = Frequency i \<or> Frequency i' = Frequency i + 1" by blast
    have "unat (Frequency i) \<le> n" using assms(1) i(1) by (simp add: freq_le_def)
    then show ?thesis using i(2) unat_inc_le [of "Frequency i"] by auto
  qed
qed

lemma step_strong:
  assumes "strong n c" "n < 18446744073709551615" "op_ok x"
  shows "strong (Suc n) (step c x)"
proof -
  have wf: "cache_wf c" and m: "member_ok c" and mi: "min_ok c" and fl: "freq_le n c"
    using assms(1) by (simp_all add: strong_def)
  have fin: "finite (dom (items c))" using wf by (simp add: cache_wf_def fin_ok_def)
  have "cache_wf (step c x)" using wf assms(3) by (rule step_wf)
  moreover have "freq_le (Suc n) (step c x)" using fl assms(3) fin by (rule step_freq_le)
  moreover have "member_ok (step c x) \<and> min_ok (step c x)"
  proof (cases x)
    case (OpSet r key v d now)
    then show ?thesis using Set_idx [OF assms(1,2)] assms(3) by simp
  next
    case (OpGet key now)
    then show ?thesis using Get_idx [OF assms(1,2)] by simp
  next
    case (OpDelete rf key)
    then show ?thesis using Delete_idx [OF wf m mi] assms(3) by simp
  next
    case (OpUpdate r p u d now t)
    then show ?thesis using Update_idx [OF assms(1,2)] assms(3) by simp
  next
    case (OpTick r rf t)
    then show ?thesis using startGC_tick_idx [OF wf m mi] assms(3) m mi by simp
  qed
  ultimately show ?thesis by (simp add: strong_def)
qed

lemma New_strong: "strong 0 (NewInMemoryCache sz d i)"
  by (simp add: strong_def New_wf)
    (simp add: member_ok_def min_ok_def freq_le_def NewInMemoryCache_def)

lemma run_strong:
  "list_all op_ok ops \<Longrightarrow> length ops \<le> 18446744073709551615 \<Longrightarrow>
   strong (length ops) (run (NewInMemoryCache sz d i) ops)"
proof (induction ops rule: rev_induct)
  case Nil
  then show ?case by (simp add: run_Nil New_strong)
next
  case (snoc x xs)
  then have "strong (length xs) (run (NewInMemoryCache sz d i) xs)"
    and "length xs < 18446744073709551615" and "op_ok x"
    by simp_all
  then have "strong (Suc (length xs)) (step (run (NewInMemoryCache sz d i) xs) x)"
    by (rule step_strong)
  then show ?case by (simp add: run_snoc)
qed

subsection \<open>Sequences of fewer than \<open>2\<^sup>6\<^sup>4\<close> operations\<close>

lemma run_strong_lt:
  assumes "list_all op_ok ops" "length ops < 2 ^ 64"
  shows "strong (length ops) (run (NewInMemoryCache sz d i) ops)"
proof -
  have "length ops \<le> 18446744073709551615" using assms(2) by simp
  with assms(1) show ?thesis by (rule run_strong)
qed

lemma nonempty_buckets:
  "buckets_ok c \<Longrightarrow> {f. bucket c f \<noteq> {}} = dom (freqGroup c)"
  by (auto simp: buckets_ok_def bucket_def split: option.splits)

text \<open>
  C3 (as amended). After any sequence of fewer than \<open>2\<^sup>6\<^sup>4\<close> operations on a new cache, if
  \<^verbatim>\<open>items\<close> is not empty then \<^verbatim>\<open>minFreq\<close> is the least index of a non-empty bucket.
\<close>

theorem minFreq_consistent:
  assumes "list_all op_ok ops" "length ops < 2 ^ 64"
    "c = run (NewInMemoryCache sz d i) ops" "items c \<noteq> Map.empty"
  shows "{f. bucket c f \<noteq> {}} \<noteq> {} \<and> minFreq c = Min {f. bucket c f \<noteq> {}}"
proof -
  have s: "strong (length ops) c" unfolding assms(3) using assms(1,2) by (rule run_strong_lt)
  then have b: "buckets_ok c" and m: "min_ok c" by (simp_all add: strong_def cache_wf_def)
  have e: "{f. bucket c f \<noteq> {}} = dom (freqGroup c)" using b by (rule nonempty_buckets)
  from m assms(4) have md: "minFreq c \<in> dom (freqGroup c)"
    and ml: "\<And>g. g \<in> dom (freqGroup c) \<Longrightarrow> minFreq c \<le> g"
    by (auto simp: min_ok_def)
  have "Min (dom (freqGroup c)) = minFreq c"
    using md ml by (intro Min_eqI) auto
  then show ?thesis using md by (auto simp: e)
qed

theorem minFreq_consistent_witness:
  "list_all op_ok [OpSet sorted_list_of_set ''a'' (Some (7::nat)) 5 0,
                   OpSet sorted_list_of_set ''b'' (Some 8) 5 0] \<and>
   length [OpSet sorted_list_of_set ''a'' (Some (7::nat)) 5 0,
           OpSet sorted_list_of_set ''b'' (Some 8) 5 0] < 2 ^ 64 \<and>
   items ex_ab \<noteq> Map.empty \<and>
   minFreq ex_ab = 1 \<and>
   {f. bucket ex_ab f \<noteq> {}} \<noteq> {} \<and> minFreq ex_ab = Min {f. bucket ex_ab f \<noteq> {}}"
proof -
  have ops: "list_all op_ok [OpSet sorted_list_of_set ''a'' (Some (7::nat)) 5 0,
                   OpSet sorted_list_of_set ''b'' (Some 8) 5 0]"
    by (simp add: range_ok_def)
  have len: "length [OpSet sorted_list_of_set ''a'' (Some (7::nat)) 5 0,
           OpSet sorted_list_of_set ''b'' (Some 8) 5 0] < 2 ^ 64"
    by simp
  have ne: "items ex_ab \<noteq> Map.empty"
    by (simp add: ex_ab_eq fun_eq_iff) (rule exI [of _ "''a''"], simp)
  have m: "minFreq ex_ab = 1" by (simp add: ex_ab_eq)
  from minFreq_consistent [OF ops len ex_ab_def ne] ops len ne m show ?thesis by simp
qed



text \<open>
  C10 (as amended). After any sequence of fewer than \<open>2\<^sup>6\<^sup>4\<close> operations on a new cache,
  every entry of \<^verbatim>\<open>items\<close> has a frequency of at least 1 and the frequency index has no
  bucket 0.
\<close>

theorem frequency_positive:
  assumes "list_all op_ok ops" "length ops < 2 ^ 64"
    "c = run (NewInMemoryCache sz d i) ops"
  shows "(\<forall>k e. items c k = Some e \<longrightarrow> 1 \<le> Frequency e) \<and> freqGroup c 0 = None"
proof -
  have s: "strong (length ops) c" unfolding assms(3) using assms(1,2) by (rule run_strong_lt)
  then have b: "buckets_ok c" and m: "member_ok c" by (simp_all add: strong_def cache_wf_def)
  have "1 \<le> Frequency e" if "items c k = Some e" for k e
    using that m by (auto simp: member_ok_def intro: one_le)
  moreover have "freqGroup c 0 = None"
    using bucket_index_ne_0 [OF b m, of 0] by auto
  ultimately show ?thesis by blast
qed

theorem frequency_positive_witness:
  "list_all op_ok [OpSet sorted_list_of_set ''a'' (Some (7::nat)) 5 0,
                   OpSet sorted_list_of_set ''b'' (Some 8) 5 0] \<and>
   length [OpSet sorted_list_of_set ''a'' (Some (7::nat)) 5 0,
           OpSet sorted_list_of_set ''b'' (Some 8) 5 0] < 2 ^ 64 \<and>
   items ex_ab ''b'' = Some \<lparr>Value = Some 8, Expiration = 5, Frequency = 1\<rparr> \<and>
   1 \<le> Frequency \<lparr>Value = Some (8::nat), Expiration = 5, Frequency = 1\<rparr> \<and>
   freqGroup ex_ab 0 = None"
proof -
  have ops: "list_all op_ok [OpSet sorted_list_of_set ''a'' (Some (7::nat)) 5 0,
                   OpSet sorted_list_of_set ''b'' (Some 8) 5 0]"
    by (simp add: range_ok_def)
  have len: "length [OpSet sorted_list_of_set ''a'' (Some (7::nat)) 5 0,
           OpSet sorted_list_of_set ''b'' (Some 8) 5 0] < 2 ^ 64"
    by simp
  have b: "items ex_ab ''b'' = Some \<lparr>Value = Some 8, Expiration = 5, Frequency = 1\<rparr>"
    by (simp add: ex_ab_eq)
  note t = frequency_positive [OF ops len ex_ab_def]
  from t [THEN conjunct1, rule_format, OF b] t [THEN conjunct2] ops len b
  show ?thesis by simp
qed

subsection \<open>A frequency that wraps around\<close>

lemma run_Cons: "run c (x # xs) = run (step c x) xs"
  by (simp add: run_def)

lemma run_replicate_Suc: "run c (replicate (Suc n) x) = step (run c (replicate n x)) x"
proof -
  have "replicate (Suc n) x = replicate n x @ [x]"
    by (simp add: replicate_append_same)
  then show ?thesis by (simp only: run_snoc)
qed

lemma single_bump:
  "upgradeItem
     \<lparr>items = [k \<mapsto> \<lparr>Value = v, Expiration = e, Frequency = f\<rparr>],
      freqGroup = [f \<mapsto> {k}], minFreq = f,
      defaultExpiration = d, cleanupInterval = ci, size_c = sz\<rparr>
     \<lparr>Value = v, Expiration = e, Frequency = f\<rparr> k =
     \<lparr>items = [k \<mapsto> \<lparr>Value = v, Expiration = e, Frequency = f + 1\<rparr>],
      freqGroup = [f + 1 \<mapsto> {k}], minFreq = f + 1,
      defaultExpiration = d, cleanupInterval = ci, size_c = sz\<rparr>"
  by (rule InMemoryCache.equality)
    (simp_all add: upgradeItem_items upgradeItem_freqGroup upgradeItem_minFreq
      upgradeItem_fields bucket_def Let_def)

lemma single_Get:
  assumes "\<not> e < now"
  shows "step
     \<lparr>items = [k \<mapsto> \<lparr>Value = v, Expiration = e, Frequency = f\<rparr>],
      freqGroup = [f \<mapsto> {k}], minFreq = f,
      defaultExpiration = d, cleanupInterval = ci, size_c = sz\<rparr> (OpGet k now) =
     \<lparr>items = [k \<mapsto> \<lparr>Value = v, Expiration = e, Frequency = f + 1\<rparr>],
      freqGroup = [f + 1 \<mapsto> {k}], minFreq = f + 1,
      defaultExpiration = d, cleanupInterval = ci, size_c = sz\<rparr>"
proof -
  let ?c = "\<lparr>items = [k \<mapsto> \<lparr>Value = v, Expiration = e, Frequency = f\<rparr>],
      freqGroup = [f \<mapsto> {k}], minFreq = f,
      defaultExpiration = d, cleanupInterval = ci, size_c = sz\<rparr>"
  have "Get ?c k now =
      (upgradeItem ?c \<lparr>Value = v, Expiration = e, Frequency = f\<rparr> k,
       (Value \<lparr>Value = v, Expiration = e, Frequency = f\<rparr>, True))"
    using assms by (intro Get_hit) (simp_all add: isExpired_def)
  then show ?thesis by (simp only: step.simps fst_conv single_bump)
qed

lemma run_Gets_a:
  "run ex_a (replicate n (OpGet ''a'' 0)) =
     \<lparr>items = [''a'' \<mapsto> \<lparr>Value = Some 7, Expiration = 5, Frequency = 1 + of_nat n\<rparr>],
      freqGroup = [1 + of_nat n \<mapsto> {''a''}], minFreq = 1 + of_nat n,
      defaultExpiration = 10, cleanupInterval = 0, size_c = 2\<rparr>"
proof (induction n)
  case 0
  then show ?case by (simp add: run_Nil ex_a_eq fun_upd_def)
next
  case (Suc n)
  have e: "1 + of_nat (Suc n) = (1 + of_nat n) + (1::u64)" by simp
  show ?case
    unfolding run_replicate_Suc Suc.IH e
    by (rule single_Get) simp
qed

lemma wrap_0: "1 + of_nat 18446744073709551615 = (0::u64)"
  by simp


lemma run_from_New_a:
  "run (NewInMemoryCache 2 10 0) (OpSet sorted_list_of_set ''a'' (Some 7) 5 0 # xs) = run ex_a xs"
  by (simp add: run_def ex_a_def)

lemma ops_a_ok:
  "list_all op_ok (OpSet sorted_list_of_set ''a'' (Some (7::nat)) 5 0 # replicate n (OpGet ''a'' 0))"
  by (simp add: range_ok_def list_all_iff)

text \<open>
  C10 as stated fails after \<open>2\<^sup>6\<^sup>4\<close> operations: the frequency is a \<^verbatim>\<open>uint64\<close>, and
  \<^verbatim>\<open>upgradeItem\<close> adds 1 with no check. After \<^verbatim>\<open>Set(a)\<close> and \<open>2\<^sup>6\<^sup>4 - 1\<close> hits of
  \<^verbatim>\<open>Get(a)\<close>, the entry of \<open>a\<close> has frequency 0 and sits in bucket 0.
\<close>

theorem frequency_positive_counterexample:
  "list_all op_ok (OpSet sorted_list_of_set ''a'' (Some (7::nat)) 5 0 #
      replicate 18446744073709551615 (OpGet ''a'' 0)) \<and>
   length (OpSet sorted_list_of_set ''a'' (Some (7::nat)) 5 0 #
      replicate 18446744073709551615 (OpGet ''a'' 0)) = 2 ^ 64 \<and>
   items (run (NewInMemoryCache 2 10 0)
     (OpSet sorted_list_of_set ''a'' (Some (7::nat)) 5 0 #
      replicate 18446744073709551615 (OpGet ''a'' 0))) ''a''
     = Some \<lparr>Value = Some 7, Expiration = 5, Frequency = 0\<rparr> \<and>
   freqGroup (run (NewInMemoryCache 2 10 0)
     (OpSet sorted_list_of_set ''a'' (Some (7::nat)) 5 0 #
      replicate 18446744073709551615 (OpGet ''a'' 0))) 0 = Some {''a''}"
proof -
  have "run (NewInMemoryCache 2 10 0)
     (OpSet sorted_list_of_set ''a'' (Some (7::nat)) 5 0 #
      replicate 18446744073709551615 (OpGet ''a'' 0)) =
     \<lparr>items = [''a'' \<mapsto> \<lparr>Value = Some 7, Expiration = 5, Frequency = 0\<rparr>],
      freqGroup = [0 \<mapsto> {''a''}], minFreq = 0,
      defaultExpiration = 10, cleanupInterval = 0, size_c = 2\<rparr>"
    unfolding run_from_New_a run_Gets_a wrap_0 by (rule refl)
  moreover have "length (OpSet sorted_list_of_set ''a'' (Some (7::nat)) 5 0 #
      replicate 18446744073709551615 (OpGet ''a'' 0)) = 2 ^ 64"
    by simp
  ultimately show ?thesis using ops_a_ok [of 18446744073709551615] by simp
qed

subsection \<open>Frequency semantics\<close>





subsection \<open>Wrap-around with two keys\<close>

lemma pair_bump:
  assumes "k \<noteq> k'" "f \<noteq> g" "f + 1 \<noteq> g"
  shows "upgradeItem
     \<lparr>items = [k \<mapsto> \<lparr>Value = v, Expiration = e, Frequency = f\<rparr>, k' \<mapsto> i'],
      freqGroup = [g \<mapsto> {k'}, f \<mapsto> {k}], minFreq = g,
      defaultExpiration = d, cleanupInterval = ci, size_c = sz\<rparr>
     \<lparr>Value = v, Expiration = e, Frequency = f\<rparr> k =
     \<lparr>items = [k \<mapsto> \<lparr>Value = v, Expiration = e, Frequency = f + 1\<rparr>, k' \<mapsto> i'],
      freqGroup = [g \<mapsto> {k'}, f + 1 \<mapsto> {k}], minFreq = g,
      defaultExpiration = d, cleanupInterval = ci, size_c = sz\<rparr>"
proof (rule InMemoryCache.equality)
  let ?c = "\<lparr>items = [k \<mapsto> \<lparr>Value = v, Expiration = e, Frequency = f\<rparr>, k' \<mapsto> i'],
      freqGroup = [g \<mapsto> {k'}, f \<mapsto> {k}], minFreq = g,
      defaultExpiration = d, cleanupInterval = ci, size_c = sz\<rparr>"
  let ?i = "\<lparr>Value = v, Expiration = e, Frequency = f\<rparr>"
  let ?r = "\<lparr>items = [k \<mapsto> \<lparr>Value = v, Expiration = e, Frequency = f + 1\<rparr>, k' \<mapsto> i'],
      freqGroup = [g \<mapsto> {k'}, f + 1 \<mapsto> {k}], minFreq = g,
      defaultExpiration = d, cleanupInterval = ci, size_c = sz\<rparr>"
  show "items (upgradeItem ?c ?i k) = items ?r"
    using assms(1) by (auto simp: upgradeItem_items fun_eq_iff)
  show "freqGroup (upgradeItem ?c ?i k) = freqGroup ?r"
    using assms(2,3) by (auto simp: upgradeItem_freqGroup bucket_def Let_def fun_eq_iff)
  show "minFreq (upgradeItem ?c ?i k) = minFreq ?r"
    using assms(2) by (auto simp: upgradeItem_minFreq)
qed (simp_all add: upgradeItem_fields)

lemma pair_Get:
  assumes "\<not> e < now" "k \<noteq> k'" "f \<noteq> g" "f + 1 \<noteq> g"
  shows "step
     \<lparr>items = [k \<mapsto> \<lparr>Value = v, Expiration = e, Frequency = f\<rparr>, k' \<mapsto> i'],
      freqGroup = [g \<mapsto> {k'}, f \<mapsto> {k}], minFreq = g,
      defaultExpiration = d, cleanupInterval = ci, size_c = sz\<rparr> (OpGet k now) =
     \<lparr>items = [k \<mapsto> \<lparr>Value = v, Expiration = e, Frequency = f + 1\<rparr>, k' \<mapsto> i'],
      freqGroup = [g \<mapsto> {k'}, f + 1 \<mapsto> {k}], minFreq = g,
      defaultExpiration = d, cleanupInterval = ci, size_c = sz\<rparr>"
proof -
  let ?c = "\<lparr>items = [k \<mapsto> \<lparr>Value = v, Expiration = e, Frequency = f\<rparr>, k' \<mapsto> i'],
      freqGroup = [g \<mapsto> {k'}, f \<mapsto> {k}], minFreq = g,
      defaultExpiration = d, cleanupInterval = ci, size_c = sz\<rparr>"
  have "Get ?c k now =
      (upgradeItem ?c \<lparr>Value = v, Expiration = e, Frequency = f\<rparr> k,
       (Value \<lparr>Value = v, Expiration = e, Frequency = f\<rparr>, True))"
    using assms(1,2) by (intro Get_hit) (simp_all add: isExpired_def)
  then show ?thesis by (simp only: step.simps fst_conv pair_bump [OF assms(2-4)])
qed

lemma first_Get_ab:
  "step ex_ab (OpGet ''a'' 0) =
     \<lparr>items = [''a'' \<mapsto> \<lparr>Value = Some 7, Expiration = 5, Frequency = 2\<rparr>,
               ''b'' \<mapsto> \<lparr>Value = Some 8, Expiration = 5, Frequency = 1\<rparr>],
      freqGroup = [1 \<mapsto> {''b''}, 2 \<mapsto> {''a''}], minFreq = 1,
      defaultExpiration = 10, cleanupInterval = 0, size_c = 2\<rparr>"
proof -
  have a: "items ex_ab ''a'' = Some \<lparr>Value = Some 7, Expiration = 5, Frequency = 1\<rparr>"
    by (simp add: ex_ab_eq)
  have g: "Get ex_ab ''a'' 0 =
      (upgradeItem ex_ab \<lparr>Value = Some 7, Expiration = 5, Frequency = 1\<rparr> ''a'',
       (Value \<lparr>Value = Some (7::nat), Expiration = 5, Frequency = 1\<rparr>, True))"
    using a by (intro Get_hit) (simp_all add: isExpired_def)
  show ?thesis
    unfolding step.simps g fst_conv
  proof (rule InMemoryCache.equality)
    show "items (upgradeItem ex_ab \<lparr>Value = Some 7, Expiration = 5, Frequency = 1\<rparr> ''a'') =
      items \<lparr>items = [''a'' \<mapsto> \<lparr>Value = Some 7, Expiration = 5, Frequency = 2\<rparr>,
               ''b'' \<mapsto> \<lparr>Value = Some 8, Expiration = 5, Frequency = 1\<rparr>],
      freqGroup = [1 \<mapsto> {''b''}, 2 \<mapsto> {''a''}], minFreq = 1,
      defaultExpiration = 10, cleanupInterval = 0, size_c = 2\<rparr>"
      by (auto simp: upgradeItem_items ex_ab_eq fun_eq_iff)
    show "freqGroup (upgradeItem ex_ab \<lparr>Value = Some 7, Expiration = 5, Frequency = 1\<rparr> ''a'') =
      freqGroup \<lparr>items = [''a'' \<mapsto> \<lparr>Value = Some 7, Expiration = 5, Frequency = 2\<rparr>,
               ''b'' \<mapsto> \<lparr>Value = Some 8, Expiration = 5, Frequency = 1\<rparr>],
      freqGroup = [1 \<mapsto> {''b''}, 2 \<mapsto> {''a''}], minFreq = 1,
      defaultExpiration = 10, cleanupInterval = 0, size_c = 2\<rparr>"
      by (auto simp: upgradeItem_freqGroup ex_ab_eq bucket_def Let_def fun_eq_iff)
  qed (simp_all add: upgradeItem_fields upgradeItem_minFreq ex_ab_eq bucket_def)
qed

lemma of_nat_ne_0:
  assumes "0 < m" "m < 2 ^ 64"
  shows "(of_nat m :: u64) \<noteq> 0"
proof
  assume "(of_nat m :: u64) = 0"
  then have "2 ^ 64 dvd m" by (simp add: word_of_nat_eq_0_iff)
  with assms show False by (auto dest: dvd_imp_le)
qed

lemma run_Gets_ab:
  assumes "n < 2 ^ 64 - 1"
  shows "run ex_ab (replicate (Suc n) (OpGet ''a'' 0)) =
     \<lparr>items = [''a'' \<mapsto> \<lparr>Value = Some 7, Expiration = 5, Frequency = 2 + of_nat n\<rparr>,
               ''b'' \<mapsto> \<lparr>Value = Some 8, Expiration = 5, Frequency = 1\<rparr>],
      freqGroup = [1 \<mapsto> {''b''}, 2 + of_nat n \<mapsto> {''a''}], minFreq = 1,
      defaultExpiration = 10, cleanupInterval = 0, size_c = 2\<rparr>"
  using assms
proof (induction n)
  case 0
  have r: "run ex_ab (replicate (Suc 0) (OpGet ''a'' 0)) = step ex_ab (OpGet ''a'' 0)"
    by (simp add: run_def)
  have z: "(2::u64) + of_nat 0 = 2" by simp
  show ?case unfolding r z by (rule first_Get_ab)
next
  case (Suc n)
  let ?f = "2 + of_nat n :: u64"
  have e: "2 + of_nat (Suc n) = ?f + 1" by simp
  define m1 m2 where "m1 = Suc n" and "m2 = Suc (Suc n)"
  have a: "(of_nat m1 :: u64) \<noteq> 0"
    by (rule of_nat_ne_0) (use Suc.prems in \<open>simp_all add: m1_def\<close>)
  have b: "(of_nat m2 :: u64) \<noteq> 0"
    by (rule of_nat_ne_0) (use Suc.prems in \<open>simp_all add: m2_def\<close>)
  have f1: "?f = 1 + of_nat m1" and f2: "?f + 1 = 1 + of_nat m2"
    by (simp_all add: m1_def m2_def)
  have ne1: "?f \<noteq> 1" unfolding f1 using a by simp
  have ne2: "?f + 1 \<noteq> 1" unfolding f2 using b by simp
  note ne = ne1 ne2
  have ih: "run ex_ab (replicate (Suc n) (OpGet ''a'' 0)) =
     \<lparr>items = [''a'' \<mapsto> \<lparr>Value = Some 7, Expiration = 5, Frequency = ?f\<rparr>,
               ''b'' \<mapsto> \<lparr>Value = Some 8, Expiration = 5, Frequency = 1\<rparr>],
      freqGroup = [1 \<mapsto> {''b''}, ?f \<mapsto> {''a''}], minFreq = 1,
      defaultExpiration = 10, cleanupInterval = 0, size_c = 2\<rparr>"
    using Suc.prems by (intro Suc.IH) simp
  show ?case
    unfolding run_replicate_Suc [of _ "Suc n"] ih e
    by (rule pair_Get [OF _ _ ne1 ne2]) simp_all
qed

lemma run_from_New_ab:
  "run (NewInMemoryCache 2 10 0)
     (OpSet sorted_list_of_set ''a'' (Some 7) 5 0 # OpSet sorted_list_of_set ''b'' (Some 8) 5 0 # xs)
   = run ex_ab xs"
  by (simp add: run_def ex_ab_def)

lemma run_wrapped_ab:
  "run (NewInMemoryCache 2 10 0)
     (OpSet sorted_list_of_set ''a'' (Some (7::nat)) 5 0 # OpSet sorted_list_of_set ''b'' (Some 8) 5 0 #
      replicate 18446744073709551615 (OpGet ''a'' 0)) =
     \<lparr>items = [''a'' \<mapsto> \<lparr>Value = Some 7, Expiration = 5, Frequency = 0\<rparr>,
               ''b'' \<mapsto> \<lparr>Value = Some 8, Expiration = 5, Frequency = 1\<rparr>],
      freqGroup = [1 \<mapsto> {''b''}, 0 \<mapsto> {''a''}], minFreq = 1,
      defaultExpiration = 10, cleanupInterval = 0, size_c = 2\<rparr>"
proof -
  have n: "(18446744073709551615::nat) = Suc 18446744073709551614" by simp
  have l: "(18446744073709551614::nat) < 2 ^ 64 - 1" by simp
  have w: "2 + of_nat 18446744073709551614 = (0::u64)" by simp
  show ?thesis
    unfolding run_from_New_ab n run_Gets_ab [OF l] w by (rule refl)
qed

text \<open>
  C3 as stated fails once a frequency has wrapped around. After \<^verbatim>\<open>Set(a)\<close>, \<^verbatim>\<open>Set(b)\<close> and
  \<open>2\<^sup>6\<^sup>4 - 1\<close> hits of \<^verbatim>\<open>Get(a)\<close>, the entry of \<open>a\<close> has frequency 0 and bucket 0 holds \<open>a\<close>,
  while \<^verbatim>\<open>minFreq\<close> is still 1, the index of the bucket of \<open>b\<close>.
\<close>

theorem minFreq_consistent_counterexample:
  "items (run (NewInMemoryCache 2 10 0)
     (OpSet sorted_list_of_set ''a'' (Some (7::nat)) 5 0 #
      OpSet sorted_list_of_set ''b'' (Some 8) 5 0 #
      replicate 18446744073709551615 (OpGet ''a'' 0))) ''a''
     = Some \<lparr>Value = Some 7, Expiration = 5, Frequency = 0\<rparr> \<and>
   bucket (run (NewInMemoryCache 2 10 0)
     (OpSet sorted_list_of_set ''a'' (Some (7::nat)) 5 0 #
      OpSet sorted_list_of_set ''b'' (Some 8) 5 0 #
      replicate 18446744073709551615 (OpGet ''a'' 0))) 0 = {''a''} \<and>
   minFreq (run (NewInMemoryCache 2 10 0)
     (OpSet sorted_list_of_set ''a'' (Some (7::nat)) 5 0 #
      OpSet sorted_list_of_set ''b'' (Some 8) 5 0 #
      replicate 18446744073709551615 (OpGet ''a'' 0))) = 1 \<and>
   (0::u64) < 1"
  unfolding run_wrapped_ab by (simp add: bucket_def)


end
